theory Spec2Isabelle
  imports Main "HOL-Library.Sublist" "HOL-Library.Multiset"
begin

section \<open>The Step Functions frontend of unum: data model\<close>

text \<open>
  The source is \<^verbatim>\<open>src/frontend/step-functions/sf.py\<close>. A workflow is the parsed JSON of
  a Step Functions state machine: a dictionary \<^verbatim>\<open>States\<close> from state names to states and
  a \<^verbatim>\<open>StartAt\<close> name. A state carries a \<^verbatim>\<open>Type\<close> and the fields of its kind:
  \<^item> \<^verbatim>\<open>Task\<close>: \<^verbatim>\<open>Resource\<close>, an optional \<^verbatim>\<open>End\<close> flag and an optional \<^verbatim>\<open>Next\<close>;
  \<^item> \<^verbatim>\<open>Map\<close>: the nested state machine \<^verbatim>\<open>Iterator\<close> and an optional \<^verbatim>\<open>Next\<close>;
  \<^item> \<^verbatim>\<open>Parallel\<close>: the list \<^verbatim>\<open>Branches\<close> of nested state machines and an optional
    \<^verbatim>\<open>Next\<close>;
  \<^item> any other \<^verbatim>\<open>Type\<close> (\<open>Other\<close>), which no branch of the lowering handles.
  The dictionary \<^verbatim>\<open>States\<close> is an association list read with \<open>map_of\<close>. The types fix
  what the source takes for granted: the fields of a kind are present and strings are
  strings.
\<close>

datatype state =
    Task string "bool option" "string option"
  | Map state_machine "string option"
  | Parallel "state_machine list" "string option"
  | Other
and state_machine =
    StateMachine "(string \<times> state) list" string

fun States :: "state_machine \<Rightarrow> (string \<times> state) list" where
  "States (StateMachine sts start) = sts"

fun StartAt :: "state_machine \<Rightarrow> string" where
  "StartAt (StateMachine sts start) = start"

text \<open>
  A unum configuration is a dictionary with the keys \<^verbatim>\<open>Name\<close>, \<^verbatim>\<open>Next\<close>, \<^verbatim>\<open>NextInput\<close> and
  \<^verbatim>\<open>Checkpoint\<close>, of which only \<^verbatim>\<open>Name\<close> is always there. \<^verbatim>\<open>Next\<close> is one function name
  or a list of them; \<^verbatim>\<open>NextInput\<close> is the string \<^verbatim>\<open>"Scalar"\<close>, the string \<^verbatim>\<open>"Map"\<close> or the
  dictionary \<^verbatim>\<open>{"Fan-in": {"Values": [...]}}\<close>.
\<close>

datatype next_target = NextName string | NextNames "string list"

datatype next_input = Scalar | MapInput | FanIn "string list"

record config =
  Name :: string
  Next :: "next_target option"
  NextInput :: "next_input option"
  Checkpoint :: "bool option"

text \<open>
  The configurations are Python dictionaries that the lowering creates once, stores in
  lists and in the returned handles, and mutates later through those handles. The model
  keeps them in a store addressed by allocation order. The two module-level counters
  live in the same state.
\<close>

type_synonym addr = nat

record cstate =
  unum_map_counter :: nat
  unum_parallel_counter :: nat
  objs :: "addr \<Rightarrow> config"
  next_obj :: addr

text \<open>The dictionary that \<^verbatim>\<open>_translate_state_machine\<close> returns.\<close>

record lowered =
  State_Name :: string
  unum_IR :: "addr list"
  Entry_unum_function :: addr
  Exit_unum_function :: addr

text \<open>
  The exceptions of the source, under the names of the specification's taxonomy:
  \<^item> \<open>MalformedGraph\<close>: the bare \<^verbatim>\<open>raise\<close> of the Task branch;
  \<^item> \<open>MissingState\<close>: the \<^verbatim>\<open>KeyError\<close> of a state name that \<^verbatim>\<open>States\<close> does not have;
  \<^item> \<open>UnresolvedReference\<close>: \<^verbatim>\<open>function-arn.yaml\<close> cannot be read, or has no entry
    for the resource;
  \<^item> \<open>UnsupportedType\<close>: a state of another \<^verbatim>\<open>Type\<close>, for which the source returns
    \<^verbatim>\<open>None\<close> and every caller fails on the first subscript of it;
  \<^item> \<open>RecursionLimit\<close>: Python's \<^verbatim>\<open>RecursionError\<close>, when the recursion depth is
    used up.
\<close>

datatype error =
  MalformedGraph | MissingState | UnresolvedReference | UnsupportedType | RecursionLimit

section \<open>Names\<close>

text \<open>Python's \<^verbatim>\<open>str\<close> of a non-negative integer, as the f-strings format the counters.\<close>

fun str_nat :: "nat \<Rightarrow> string" where
  "str_nat n =
     (if n < 10 then [''0123456789'' ! n]
      else str_nat (n div 10) @ [''0123456789'' ! (n mod 10)])"

declare str_nat.simps [simp del]

text \<open>Python's \<^verbatim>\<open>sub in s\<close> on strings.\<close>

fun contains :: "string \<Rightarrow> string \<Rightarrow> bool" where
  "contains sub [] = (sub = [])"
| "contains sub (c # cs) = (prefix sub (c # cs) \<or> contains sub cs)"

text \<open>
  \<^verbatim>\<open>get_state_unum_function_name\<close>. The content of \<^verbatim>\<open>function-arn.yaml\<close> is a parameter:
  \<open>None\<close> when the file cannot be opened or parsed into a dictionary, otherwise the
  dictionary from function names to ARNs in file order. The source returns the key at
  the position of the first value equal to the resource; the function takes the
  \<^verbatim>\<open>Resource\<close> of the state.
\<close>

fun key_of_value :: "(string \<times> string) list \<Rightarrow> string \<Rightarrow> string option" where
  "key_of_value [] v = None"
| "key_of_value ((k, w) # kvs) v = (if w = v then Some k else key_of_value kvs v)"

definition get_state_unum_function_name ::
  "(string \<times> string) list option \<Rightarrow> string \<Rightarrow> error + string" where
  "get_state_unum_function_name arn_file resource =
     (if contains ''arn:aws:lambda'' resource then
        (case arn_file of
           None \<Rightarrow> Inl UnresolvedReference
         | Some arn_to_name_mapping \<Rightarrow>
             (case key_of_value arn_to_name_mapping resource of
                None \<Rightarrow> Inl UnresolvedReference
              | Some function_name \<Rightarrow> Inr function_name))
      else Inr resource)"

section \<open>The store\<close>

definition new_obj :: "config \<Rightarrow> cstate \<Rightarrow> addr \<times> cstate" where
  "new_obj c s =
     (next_obj s, s\<lparr>objs := (objs s)(next_obj s := c), next_obj := Suc (next_obj s)\<rparr>)"

definition set_Next :: "addr \<Rightarrow> next_target \<Rightarrow> cstate \<Rightarrow> cstate" where
  "set_Next a v s = s\<lparr>objs := (objs s)(a := (objs s a)\<lparr>Next := Some v\<rparr>)\<rparr>"

definition set_NextInput :: "addr \<Rightarrow> next_input \<Rightarrow> cstate \<Rightarrow> cstate" where
  "set_NextInput a v s = s\<lparr>objs := (objs s)(a := (objs s a)\<lparr>NextInput := Some v\<rparr>)\<rparr>"

definition set_Checkpoint :: "addr \<Rightarrow> bool \<Rightarrow> cstate \<Rightarrow> cstate" where
  "set_Checkpoint a v s = s\<lparr>objs := (objs s)(a := (objs s a)\<lparr>Checkpoint := Some v\<rparr>)\<rparr>"

definition name_only :: "string \<Rightarrow> config" where
  "name_only n = \<lparr>Name = n, Next = None, NextInput = None, Checkpoint = None\<rparr>"

section \<open>Lowering\<close>

text \<open>
  The loop of the Parallel branch: for each branch in order, extend the IR by the
  branch's IR and set \<^verbatim>\<open>NextInput\<close> and \<^verbatim>\<open>Next\<close> of the branch's exit configuration.
\<close>

fun fan_in_branches ::
  "string list \<Rightarrow> string \<Rightarrow> lowered list \<Rightarrow> addr list \<Rightarrow> cstate \<Rightarrow> addr list \<times> cstate" where
  "fan_in_branches vals sink_name [] ir s = (ir, s)"
| "fan_in_branches vals sink_name (b # bs) ir s =
     fan_in_branches vals sink_name bs (ir @ unum_IR b)
       (set_Next (Exit_unum_function b) (NextName sink_name)
         (set_NextInput (Exit_unum_function b) (FanIn vals) s))"

text \<open>
  \<^verbatim>\<open>parallel_fan_in_vals\<close>: the exit name of branch \<open>i\<close>, \<^verbatim>\<open>-unumIndex-\<close> and \<open>i\<close>, for
  \<open>i\<close> from \<open>k\<close> on.
\<close>

fun fan_in_vals :: "cstate \<Rightarrow> nat \<Rightarrow> lowered list \<Rightarrow> string list" where
  "fan_in_vals s i [] = []"
| "fan_in_vals s i (b # bs) =
     (Name (objs s (Exit_unum_function b)) @ ''-unumIndex-'' @ str_nat i)
       # fan_in_vals s (Suc i) bs"

text \<open>
  The blocks of \<^verbatim>\<open>_translate_state_machine\<close> between its recursive calls, one definition
  each, in the order of the source.

  Task with \<^verbatim>\<open>End\<close>: one configuration with the name only, which is entry and exit.
\<close>

definition task_end :: "string \<Rightarrow> string \<Rightarrow> cstate \<Rightarrow> lowered \<times> cstate" where
  "task_end state_name unum_function_name s =
     (case new_obj (name_only unum_function_name) s of
        (config, s1) \<Rightarrow>
          (\<lparr>State_Name = state_name, unum_IR = [config],
            Entry_unum_function = config, Exit_unum_function = config\<rparr>, s1))"

text \<open>
  Task with \<^verbatim>\<open>Next\<close>, after the successor is lowered: the configuration points to the
  successor's entry, the IR is the configuration followed by the successor's IR, the exit
  is the successor's exit.
\<close>

definition task_next :: "string \<Rightarrow> string \<Rightarrow> lowered \<Rightarrow> cstate \<Rightarrow> lowered \<times> cstate" where
  "task_next state_name unum_function_name next_state s1 =
     (case new_obj
             \<lparr>Name = unum_function_name,
              Next = Some (NextName (Name (objs s1 (Entry_unum_function next_state)))),
              NextInput = Some Scalar, Checkpoint = None\<rparr> s1 of
        (config, s2) \<Rightarrow>
          (\<lparr>State_Name = state_name, unum_IR = [config] @ unum_IR next_state,
            Entry_unum_function = config,
            Exit_unum_function = Exit_unum_function next_state\<rparr>, s2))"

text \<open>
  Map, after the iterator is lowered: \<^verbatim>\<open>unum_map\<close> and \<^verbatim>\<open>unum_map_sink\<close> are named from
  the counter, the counter is advanced, the iterator's exit gets \<^verbatim>\<open>Next\<close> and the fan-in
  \<^verbatim>\<open>NextInput\<close>, and the IR is assembled. The result is \<^verbatim>\<open>unum_map\<close>, \<^verbatim>\<open>unum_map_sink\<close>,
  the IR and the state.
\<close>

definition map_barrier :: "lowered \<Rightarrow> cstate \<Rightarrow> addr \<times> addr \<times> addr list \<times> cstate" where
  "map_barrier iterator s1 =
     (case new_obj
             \<lparr>Name = ''UnumMap'' @ str_nat (unum_map_counter s1),
              Next = Some (NextName (Name (objs s1 (Entry_unum_function iterator)))),
              NextInput = Some MapInput, Checkpoint = None\<rparr> s1 of
        (unum_map, s2) \<Rightarrow>
          (case new_obj (name_only (''UnumMapSink'' @ str_nat (unum_map_counter s2))) s2 of
             (unum_map_sink, s3) \<Rightarrow>
               (let s4 = s3\<lparr>unum_map_counter := unum_map_counter s3 + 1\<rparr>;
                    s5 = set_Next (Exit_unum_function iterator)
                           (NextName (Name (objs s4 unum_map_sink))) s4;
                    s6 = set_NextInput (Exit_unum_function iterator)
                           (FanIn [Name (objs s5 (Exit_unum_function iterator))
                                     @ ''-unumIndex-*'']) s5;
                    ir = ([unum_map] @ unum_IR iterator) @ [unum_map_sink]
                in (unum_map, unum_map_sink, ir, s6))))"

text \<open>
  Parallel, after the branches are lowered: \<^verbatim>\<open>unum_parallel\<close> names the entries of all
  branches, \<^verbatim>\<open>unum_parallel_sink\<close> is named from the same counter value, the counter is
  advanced, the fan-in values are computed and the loop over the branches runs.
\<close>

definition parallel_barrier ::
  "lowered list \<Rightarrow> cstate \<Rightarrow> addr \<times> addr \<times> addr list \<times> cstate" where
  "parallel_barrier branches s1 =
     (case new_obj
             \<lparr>Name = ''UnumParallel'' @ str_nat (unum_parallel_counter s1),
              Next = Some (NextNames
                (map (\<lambda>b. Name (objs s1 (Entry_unum_function b))) branches)),
              NextInput = Some Scalar, Checkpoint = None\<rparr> s1 of
        (unum_parallel, s2) \<Rightarrow>
          (case new_obj
                  (name_only (''UnumParallelSink'' @ str_nat (unum_parallel_counter s2))) s2 of
             (unum_parallel_sink, s3) \<Rightarrow>
               (let s4 = s3\<lparr>unum_parallel_counter := unum_parallel_counter s3 + 1\<rparr>;
                    parallel_fan_in_vals = fan_in_vals s4 0 branches
                in case fan_in_branches parallel_fan_in_vals
                          (Name (objs s4 unum_parallel_sink)) branches [unum_parallel] s4 of
                     (ir0, s5) \<Rightarrow>
                       (unum_parallel, unum_parallel_sink, ir0 @ [unum_parallel_sink], s5))))"

text \<open>
  The end of the Map and of the Parallel branch, which are the same text in the source.
  Without \<^verbatim>\<open>Next\<close> the sink is the exit. With \<^verbatim>\<open>Next\<close>, after the successor is lowered,
  the sink points to the successor's entry, the successor's IR is appended and the exit
  is the successor's exit.
\<close>

definition barrier_end :: "string \<Rightarrow> addr \<Rightarrow> addr \<Rightarrow> addr list \<Rightarrow> lowered" where
  "barrier_end state_name entry sink ir =
     \<lparr>State_Name = state_name, unum_IR = ir,
      Entry_unum_function = entry, Exit_unum_function = sink\<rparr>"

definition barrier_next ::
  "string \<Rightarrow> addr \<Rightarrow> addr \<Rightarrow> addr list \<Rightarrow> lowered \<Rightarrow> cstate \<Rightarrow> lowered \<times> cstate" where
  "barrier_next state_name entry sink ir next_state s7 =
     (let s8 = set_Next sink
                 (NextName (Name (objs s7 (Entry_unum_function next_state)))) s7;
          s9 = set_NextInput sink Scalar s8
      in (\<lparr>State_Name = state_name, unum_IR = ir @ unum_IR next_state,
           Entry_unum_function = entry,
           Exit_unum_function = Exit_unum_function next_state\<rparr>, s9))"

text \<open>
  \<^verbatim>\<open>_translate_state_machine\<close> (here \<open>translate_state_machine'\<close>), \<^verbatim>\<open>translate_state_machine\<close>
  and the list comprehension over the branches. The first argument is the content of
  \<^verbatim>\<open>function-arn.yaml\<close>. The second bounds the depth of the calls of
  \<^verbatim>\<open>_translate_state_machine\<close>, as Python's recursion limit does: a workflow whose
  \<^verbatim>\<open>Next\<close> chain cycles never returns a result in the source but ends in
  \<^verbatim>\<open>RecursionError\<close>.
\<close>

function (sequential) translate_state_machine' ::
    "(string \<times> string) list option \<Rightarrow> nat \<Rightarrow> string \<Rightarrow> state_machine \<Rightarrow> cstate
       \<Rightarrow> error + (lowered \<times> cstate)"
and translate_state_machine ::
    "(string \<times> string) list option \<Rightarrow> nat \<Rightarrow> state_machine \<Rightarrow> cstate
       \<Rightarrow> error + (lowered \<times> cstate)"
and translate_branches ::
    "(string \<times> string) list option \<Rightarrow> nat \<Rightarrow> state_machine list \<Rightarrow> cstate
       \<Rightarrow> error + (lowered list \<times> cstate)"
where
  "translate_state_machine' af 0 state_name state_machine s = Inl RecursionLimit"
| "translate_state_machine' af (Suc d) state_name state_machine s =
     (case map_of (States state_machine) state_name of
        None \<Rightarrow> Inl MissingState
      | Some (Task resource end_flag nxt) \<Rightarrow>
          (case get_state_unum_function_name af resource of
             Inl e \<Rightarrow> Inl e
           | Inr unum_function_name \<Rightarrow>
               if end_flag = Some True then Inr (task_end state_name unum_function_name s)
               else
                 (case nxt of
                    Some nxt_name \<Rightarrow>
                      (case translate_state_machine' af d nxt_name state_machine s of
                         Inl e \<Rightarrow> Inl e
                       | Inr (next_state, s1) \<Rightarrow>
                           Inr (task_next state_name unum_function_name next_state s1))
                  | None \<Rightarrow> Inl MalformedGraph))
      | Some (Map iter nxt) \<Rightarrow>
          (case translate_state_machine af d iter s of
             Inl e \<Rightarrow> Inl e
           | Inr (iterator, s1) \<Rightarrow>
               (case map_barrier iterator s1 of
                  (unum_map, unum_map_sink, ir, s6) \<Rightarrow>
                    (case nxt of
                       Some nxt_name \<Rightarrow>
                         (case translate_state_machine' af d nxt_name state_machine s6 of
                            Inl e \<Rightarrow> Inl e
                          | Inr (next_state, s7) \<Rightarrow>
                              Inr (barrier_next state_name unum_map unum_map_sink ir
                                     next_state s7))
                     | None \<Rightarrow>
                         Inr (barrier_end state_name unum_map unum_map_sink ir, s6))))
      | Some (Parallel brs nxt) \<Rightarrow>
          (case translate_branches af d brs s of
             Inl e \<Rightarrow> Inl e
           | Inr (branches, s1) \<Rightarrow>
               (case parallel_barrier branches s1 of
                  (unum_parallel, unum_parallel_sink, ir, s5) \<Rightarrow>
                    (case nxt of
                       Some nxt_name \<Rightarrow>
                         (case translate_state_machine' af d nxt_name state_machine s5 of
                            Inl e \<Rightarrow> Inl e
                          | Inr (next_state, s6) \<Rightarrow>
                              Inr (barrier_next state_name unum_parallel unum_parallel_sink ir
                                     next_state s6))
                     | None \<Rightarrow>
                         Inr (barrier_end state_name unum_parallel unum_parallel_sink ir,
                              s5))))
      | Some Other \<Rightarrow> Inl UnsupportedType)"
| "translate_state_machine af d state_machine s =
     (case map_of (States state_machine) (StartAt state_machine) of
        None \<Rightarrow> Inl MissingState
      | Some entry_state \<Rightarrow>
          translate_state_machine' af d (StartAt state_machine) state_machine s)"
| "translate_branches af d [] s = Inr ([], s)"
| "translate_branches af d (b # bs) s =
     (case translate_state_machine af d b s of
        Inl e \<Rightarrow> Inl e
      | Inr (r, s1) \<Rightarrow>
          (case translate_branches af d bs s1 of
             Inl e \<Rightarrow> Inl e
           | Inr (rs, s2) \<Rightarrow> Inr (r # rs, s2)))"
  by pat_completeness auto

termination
  by (relation "measures
        [case_sum (\<lambda>(af, d, n, sm, s). d)
           (case_sum (\<lambda>(af, d, sm, s). d) (\<lambda>(af, d, brs, s). d)),
         case_sum (\<lambda>_. 0) (case_sum (\<lambda>_. 1) (\<lambda>_. 2)),
         case_sum (\<lambda>_. 0) (case_sum (\<lambda>_. 0) (\<lambda>(af, d, brs, s). length brs))]")
     auto

text \<open>
  The checkpoint pass of \<^verbatim>\<open>main\<close>: every configuration of the IR, in order, gets
  \<^verbatim>\<open>Checkpoint\<close>. The test \<^verbatim>\<open>"Fan-in" in c["NextInput"]\<close> is a key test on the
  dictionary and a substring test on the strings \<^verbatim>\<open>"Scalar"\<close> and \<^verbatim>\<open>"Map"\<close>, which do not
  contain \<^verbatim>\<open>Fan-in\<close>.
\<close>

fun has_fan_in :: "config \<Rightarrow> bool" where
  "has_fan_in c =
     (case NextInput c of
        None \<Rightarrow> False
      | Some Scalar \<Rightarrow> False
      | Some MapInput \<Rightarrow> False
      | Some (FanIn vals) \<Rightarrow> True)"

fun checkpoint_pass :: "bool \<Rightarrow> addr list \<Rightarrow> cstate \<Rightarrow> cstate" where
  "checkpoint_pass dflt [] s = s"
| "checkpoint_pass dflt (c # cs) s =
     checkpoint_pass dflt cs
       (if has_fan_in (objs s c) then set_Checkpoint c True s
        else set_Checkpoint c dflt s)"

text \<open>
  The body of \<^verbatim>\<open>main\<close> after the workflow and the template are read, from a given
  state of the process: the workflow is lowered, the checkpoint pass runs with the
  template's \<^verbatim>\<open>Globals.Checkpoint\<close>, and the IR is printed: the configurations of the
  list as they are then. \<^verbatim>\<open>main\<close> itself runs once in a fresh process, with both counters
  at 0 and no configuration.
\<close>

definition emitted :: "lowered \<Rightarrow> cstate \<Rightarrow> config list" where
  "emitted ir s = map (objs s) (unum_IR ir)"

definition compile ::
  "(string \<times> string) list option \<Rightarrow> nat \<Rightarrow> state_machine \<Rightarrow> bool \<Rightarrow> cstate
     \<Rightarrow> error + (config list \<times> cstate)" where
  "compile af d state_machine dflt s =
     (case translate_state_machine af d state_machine s of
        Inl e \<Rightarrow> Inl e
      | Inr (ir, s1) \<Rightarrow>
          (let s2 = checkpoint_pass dflt (unum_IR ir) s1 in Inr (emitted ir s2, s2)))"

definition start :: cstate where
  "start = \<lparr>unum_map_counter = 0, unum_parallel_counter = 0,
            objs = (\<lambda>a. name_only []), next_obj = 0\<rparr>"

definition main ::
  "(string \<times> string) list option \<Rightarrow> nat \<Rightarrow> state_machine \<Rightarrow> bool \<Rightarrow> error + config list" where
  "main af d state_machine dflt =
     (case compile af d state_machine dflt start of
        Inl e \<Rightarrow> Inl e
      | Inr (ir, s) \<Rightarrow> Inr ir)"

text \<open>The workflow of the idempotence property: the tasks A, B and C in a chain.\<close>

definition three_task_chain :: "string \<Rightarrow> string \<Rightarrow> string \<Rightarrow> state_machine" where
  "three_task_chain ra rb rc =
     StateMachine
       [(''A'', Task ra None (Some ''B'')),
        (''B'', Task rb None (Some ''C'')),
        (''C'', Task rc (Some True) None)] ''A''"

section \<open>Invariants of the store\<close>

text \<open>
  The predicates of the proofs. \<open>frame s s'\<close>: from \<open>s\<close> to \<open>s'\<close> configurations are only
  added, those that \<open>s\<close> has are unchanged, and the counters do not decrease.
  \<open>good s r s'\<close>: a lowering from \<open>s\<close> to \<open>s'\<close> that returns \<open>r\<close> leaves what \<open>s\<close> has
  alone, its IR, entry and exit are configurations created in between, and the exit has
  neither \<^verbatim>\<open>Next\<close> nor \<^verbatim>\<open>NextInput\<close>. \<open>goods\<close> is the same for the branches of a Parallel,
  whose exits are different configurations. \<open>fan_in_upd\<close> is the pair of assignments of
  the loop over the branches.
\<close>

definition frame :: "cstate \<Rightarrow> cstate \<Rightarrow> bool" where
  "frame s s' \<longleftrightarrow>
     next_obj s \<le> next_obj s' \<and> (\<forall>a<next_obj s. objs s' a = objs s a) \<and>
     unum_map_counter s \<le> unum_map_counter s' \<and>
     unum_parallel_counter s \<le> unum_parallel_counter s'"

definition good :: "cstate \<Rightarrow> lowered \<Rightarrow> cstate \<Rightarrow> bool" where
  "good s r s' \<longleftrightarrow>
     frame s s' \<and> (\<forall>a\<in>set (unum_IR r). next_obj s \<le> a \<and> a < next_obj s') \<and>
     Entry_unum_function r \<in> set (unum_IR r) \<and> Exit_unum_function r \<in> set (unum_IR r) \<and>
     Next (objs s' (Exit_unum_function r)) = None \<and>
     NextInput (objs s' (Exit_unum_function r)) = None"

definition fan_in_upd :: "string list \<Rightarrow> string \<Rightarrow> config \<Rightarrow> config" where
  "fan_in_upd vals sn c = c\<lparr>Next := Some (NextName sn), NextInput := Some (FanIn vals)\<rparr>"

definition goods :: "cstate \<Rightarrow> lowered list \<Rightarrow> cstate \<Rightarrow> bool" where
  "goods s rs s' \<longleftrightarrow>
     frame s s' \<and> (\<forall>r\<in>set rs. \<exists>t t'. frame s t \<and> good t r t' \<and> frame t' s') \<and>
     distinct (map Exit_unum_function rs)"

text \<open>
  The names of a run. \<open>resources_of_machine\<close> collects the \<^verbatim>\<open>Resource\<close> of every Task of a
  workflow, nested ones included, and \<open>step_names\<close> what \<^verbatim>\<open>get_state_unum_function_name\<close>
  makes of them. \<open>barrier_names m m' p p'\<close> lists the names that the f-strings of the Map
  and Parallel branches form for the map counter values from \<open>m\<close> up to \<open>m'\<close> and the
  parallel counter values from \<open>p\<close> up to \<open>p'\<close>, the upper ends excluded.
\<close>

primrec resources_of_state :: "state \<Rightarrow> string set"
  and resources_of_machine :: "state_machine \<Rightarrow> string set" where
  "resources_of_state (Task resource end_flag nxt) = {resource}"
| "resources_of_state (Map iter nxt) = resources_of_machine iter"
| "resources_of_state (Parallel brs nxt) = \<Union> (set (map resources_of_machine brs))"
| "resources_of_state Other = {}"
| "resources_of_machine (StateMachine sts start_at) =
     \<Union> (set (map snd (map (map_prod (\<lambda>n. n) resources_of_state) sts)))"

definition step_names :: "(string \<times> string) list option \<Rightarrow> state_machine \<Rightarrow> string set" where
  "step_names af sm =
     {f. \<exists>resource \<in> resources_of_machine sm.
           get_state_unum_function_name af resource = Inr f}"

definition barrier_names :: "nat \<Rightarrow> nat \<Rightarrow> nat \<Rightarrow> nat \<Rightarrow> string list" where
  "barrier_names m m' p p' =
     map (\<lambda>n. ''UnumMap'' @ str_nat n) [m..<m'] @
     map (\<lambda>n. ''UnumMapSink'' @ str_nat n) [m..<m'] @
     map (\<lambda>n. ''UnumParallel'' @ str_nat n) [p..<p'] @
     map (\<lambda>n. ''UnumParallelSink'' @ str_nat n) [p..<p']"

text \<open>
  \<open>names_of s ir\<close> are the names of a list of configurations, with repetitions. \<open>kept\<close>:
  configurations are only added, names stay and the counters do not decrease. \<open>named\<close>: the
  names of the list are the barrier names of the counter values used in between, each
  once, and names of Tasks of the workflow.
\<close>

definition names_of :: "cstate \<Rightarrow> addr list \<Rightarrow> string multiset" where
  "names_of s ir = mset (map (\<lambda>a. Name (objs s a)) ir)"

definition kept :: "cstate \<Rightarrow> cstate \<Rightarrow> bool" where
  "kept s s' \<longleftrightarrow>
     next_obj s \<le> next_obj s' \<and> unum_map_counter s \<le> unum_map_counter s' \<and>
     unum_parallel_counter s \<le> unum_parallel_counter s' \<and>
     (\<forall>a<next_obj s. Name (objs s' a) = Name (objs s a))"

definition named ::
  "(string \<times> string) list option \<Rightarrow> state_machine \<Rightarrow> cstate \<Rightarrow> addr list \<Rightarrow> cstate \<Rightarrow> bool" where
  "named af sm s ir s' \<longleftrightarrow>
     kept s s' \<and> (\<forall>a\<in>set ir. a < next_obj s') \<and>
     (\<exists>T. names_of s' ir =
            mset (barrier_names (unum_map_counter s) (unum_map_counter s')
                   (unum_parallel_counter s) (unum_parallel_counter s')) + T \<and>
          set_mset T \<subseteq> step_names af sm)"

section \<open>The lowering keeps the invariant\<close>

lemma frame_refl: "frame s s" by (simp add: frame_def)

lemma frame_trans: "frame s t \<Longrightarrow> frame t u \<Longrightarrow> frame s u"
  by (auto simp: frame_def)

lemma task_end_good: "task_end n f s = (r, s') \<Longrightarrow> good s r s'"
  by (auto simp: task_end_def new_obj_def good_def frame_def name_only_def)

lemma goodI:
  assumes "frame s s'" "\<And>a. a \<in> set (unum_IR r) \<Longrightarrow> next_obj s \<le> a \<and> a < next_obj s'"
    "Entry_unum_function r \<in> set (unum_IR r)" "Exit_unum_function r \<in> set (unum_IR r)"
    "Next (objs s' (Exit_unum_function r)) = None"
    "NextInput (objs s' (Exit_unum_function r)) = None"
  shows "good s r s'"
  using assms by (simp add: good_def)

lemma good_frame: "good s r s' \<Longrightarrow> frame s s'" by (simp add: good_def)

lemma good_range: "good s r s' \<Longrightarrow> a \<in> set (unum_IR r) \<Longrightarrow> next_obj s \<le> a \<and> a < next_obj s'"
  by (simp add: good_def)

lemma good_entry: "good s r s' \<Longrightarrow> Entry_unum_function r \<in> set (unum_IR r)" by (simp add: good_def)

lemma good_exit: "good s r s' \<Longrightarrow> Exit_unum_function r \<in> set (unum_IR r)" by (simp add: good_def)

lemma good_exit_Next: "good s r s' \<Longrightarrow> Next (objs s' (Exit_unum_function r)) = None" by (simp add: good_def)

lemma good_exit_NextInput: "good s r s' \<Longrightarrow> NextInput (objs s' (Exit_unum_function r)) = None" by (simp add: good_def)

lemma task_next_good:
  assumes "good s ns s1" "task_next n f ns s1 = (r, s2)"
  shows "good s r s2"
  using assms
    by (auto simp: task_next_def new_obj_def good_def frame_def less_Suc_eq)

lemma map_barrier_good:
  "good s it s1 \<Longrightarrow> map_barrier it s1 = (e, k, ir, s6) \<Longrightarrow> good s (barrier_end n e k ir) s6"
  by (auto simp: map_barrier_def new_obj_def good_def frame_def barrier_end_def Let_def
        set_Next_def set_NextInput_def name_only_def less_Suc_eq)

lemma frame_upd:
  "frame s t \<Longrightarrow> next_obj s \<le> k \<Longrightarrow> frame s (t\<lparr>objs := (objs t)(k := c)\<rparr>)"
  by (auto simp: frame_def)

lemma barrier_next_good:
  assumes g1: "good s (barrier_end n e k ir) s6" and g2: "good s6 ns s7"
    and bn: "barrier_next n e k ir ns s7 = (r, s9)"
  shows "good s r s9"
proof -
  have k: "next_obj s \<le> k" "k < next_obj s6" "k \<in> set ir" "e \<in> set ir"
    using good_range[OF g1, of k] good_exit[OF g1] good_entry[OF g1]
    by (simp_all add: barrier_end_def)
  have ir: "\<And>a. a \<in> set ir \<Longrightarrow> next_obj s \<le> a \<and> a < next_obj s6"
    using good_range[OF g1] by (simp add: barrier_end_def)
  have x: "next_obj s6 \<le> Exit_unum_function ns" "Exit_unum_function ns < next_obj s7"
    "Exit_unum_function ns \<in> set (unum_IR ns)"
    using good_range[OF g2, of "Exit_unum_function ns"] good_exit[OF g2] by simp_all
  have le: "next_obj s6 \<le> next_obj s7" using good_frame[OF g2] by (simp add: frame_def)
  define c where "c = (objs s7 k)\<lparr>Next := Some (NextName (Name (objs s7
      (Entry_unum_function ns)))), NextInput := Some Scalar\<rparr>"
  have s9: "s9 = s7\<lparr>objs := (objs s7)(k := c)\<rparr>"
    and r: "r = \<lparr>State_Name = n, unum_IR = ir @ unum_IR ns, Entry_unum_function = e,
           Exit_unum_function = Exit_unum_function ns\<rparr>"
    using bn by (simp_all add: barrier_next_def Let_def set_Next_def set_NextInput_def c_def)
  have f: "frame s s9"
    unfolding s9 by (rule frame_upd[OF frame_trans[OF good_frame[OF g1] good_frame[OF g2]] k(1)])
  have ne: "Exit_unum_function ns \<noteq> k" using k x by simp
  show ?thesis
  proof (rule goodI[OF f])
    fix a assume "a \<in> set (unum_IR r)"
    then have "a \<in> set ir \<or> a \<in> set (unum_IR ns)" by (simp add: r)
    then show "next_obj s \<le> a \<and> a < next_obj s9"
      using ir[of a] good_range[OF g2, of a] le k by (auto simp: s9)
  next
    show "Entry_unum_function r \<in> set (unum_IR r)" using k by (simp add: r)
    show "Exit_unum_function r \<in> set (unum_IR r)" using x by (simp add: r)
    show "Next (objs s9 (Exit_unum_function r)) = None"
      using ne good_exit_Next[OF g2] by (simp add: r s9)
    show "NextInput (objs s9 (Exit_unum_function r)) = None"
      using ne good_exit_NextInput[OF g2] by (simp add: r s9)
  qed
qed

lemma fan_in_branches_eq:
  "fan_in_branches vals sn bs ir s =
     (ir @ concat (map unum_IR bs),
      s\<lparr>objs := (\<lambda>a. if a \<in> Exit_unum_function ` set bs then fan_in_upd vals sn (objs s a)
                        else objs s a)\<rparr>)"
proof (induction bs arbitrary: ir s)
  case Nil
  show ?case by simp
next
  case (Cons b bs)
  show ?case
    unfolding fan_in_branches.simps Cons.IH
    by (auto simp: set_Next_def set_NextInput_def fan_in_upd_def fun_eq_iff)
qed

lemma goods_Nil: "goods s [] s" by (simp add: goods_def frame_refl)

lemma good_later:
  assumes "good t r t'" "frame t' s'"
  shows "Next (objs s' (Exit_unum_function r)) = None"
    "NextInput (objs s' (Exit_unum_function r)) = None"
    "Exit_unum_function r < next_obj t'"
  using assms good_range[OF assms(1), of "Exit_unum_function r"]
  by (auto simp: good_def frame_def)

lemma goods_Cons:
  assumes g: "good s r s1" and gs: "goods s1 rs s2"
  shows "goods s (r # rs) s2"
proof -
  have f12: "frame s1 s2" using gs by (simp add: goods_def)
  have f: "frame s s2" using frame_trans[OF good_frame[OF g] f12] .
  have ex: "Exit_unum_function r < next_obj s1"
    using good_range[OF g, of "Exit_unum_function r"] good_exit[OF g] by simp
  have "Exit_unum_function r \<noteq> Exit_unum_function q" if "q \<in> set rs" for q
  proof -
    from gs that obtain t t' where "frame s1 t" "good t q t'"
      by (auto simp: goods_def)
    then have "next_obj s1 \<le> Exit_unum_function q"
      using good_range[of t q t' "Exit_unum_function q"] good_exit[of t q t']
      by (auto simp: frame_def)
    with ex show ?thesis by simp
  qed
  then have d: "distinct (map Exit_unum_function (r # rs))"
    using gs by (auto simp: goods_def)
  have "\<exists>t t'. frame s t \<and> good t q t' \<and> frame t' s2" if "q \<in> set (r # rs)" for q
  proof (cases "q = r")
    case True
    then show ?thesis using g f12 frame_refl by blast
  next
    case False
    with that gs obtain t t' where "frame s1 t" "good t q t'" "frame t' s2"
      by (auto simp: goods_def)
    then show ?thesis using frame_trans[OF good_frame[OF g]] by blast
  qed
  then show ?thesis using f d by (simp add: goods_def)
qed

lemma goods_range:
  assumes "goods s bs s1" "b \<in> set bs" "a \<in> set (unum_IR b)"
  shows "next_obj s \<le> a \<and> a < next_obj s1"
proof -
  from assms obtain t t' where "frame s t" "good t b t'" "frame t' s1"
    by (auto simp: goods_def)
  then show ?thesis using good_range[of t b t' a] assms(3) by (auto simp: frame_def)
qed

lemma goods_exit_range:
  assumes "goods s bs s1" "b \<in> set bs"
  shows "next_obj s \<le> Exit_unum_function b \<and> Exit_unum_function b < next_obj s1"
proof -
  from assms obtain t t' where "frame s t" "good t b t'" "frame t' s1"
    by (auto simp: goods_def)
  then show ?thesis using good_range[of t b t' "Exit_unum_function b"] good_exit[of t b t']
    by (auto simp: frame_def)
qed

lemma fan_in_vals_cong:
  "(\<And>b. b \<in> set bs \<Longrightarrow> Name (objs s (Exit_unum_function b)) = Name (objs t (Exit_unum_function b)))
   \<Longrightarrow> fan_in_vals s i bs = fan_in_vals t i bs"
  by (induction bs arbitrary: i) auto

lemma length_fan_in_vals: "length (fan_in_vals s i bs) = length bs"
  by (induction bs arbitrary: i) auto

lemma nth_fan_in_vals:
  "j < length bs \<Longrightarrow> fan_in_vals s i bs ! j =
     Name (objs s (Exit_unum_function (bs ! j))) @ ''-unumIndex-'' @ str_nat (i + j)"
proof (induction bs arbitrary: i j)
  case Nil
  then show ?case by simp
next
  case (Cons b bs)
  show ?case
  proof (cases j)
    case 0
    then show ?thesis by simp
  next
    case (Suc j')
    with Cons.prems have "j' < length bs" by simp
    from Cons.IH[OF this, of "Suc i"] show ?thesis using Suc by simp
  qed
qed

lemma parallel_barrier_props:
  assumes pb: "parallel_barrier bs s1 = (e, k, ir, s5)"
    and ex: "\<And>b. b \<in> set bs \<Longrightarrow> Exit_unum_function b < next_obj s1"
  shows "e = next_obj s1" "k = Suc (next_obj s1)"
    "ir = [e] @ concat (map unum_IR bs) @ [k]"
    "next_obj s5 = Suc (Suc (next_obj s1))"
    "unum_parallel_counter s5 = Suc (unum_parallel_counter s1)"
    "unum_map_counter s5 = unum_map_counter s1"
    "\<And>a. a < next_obj s1 \<Longrightarrow> a \<notin> Exit_unum_function ` set bs \<Longrightarrow> objs s5 a = objs s1 a"
    "objs s5 e = \<lparr>Name = ''UnumParallel'' @ str_nat (unum_parallel_counter s1),
        Next = Some (NextNames (map (\<lambda>b. Name (objs s1 (Entry_unum_function b))) bs)),
        NextInput = Some Scalar, Checkpoint = None\<rparr>"
    "objs s5 k = name_only (''UnumParallelSink'' @ str_nat (unum_parallel_counter s1))"
    "\<And>b. b \<in> set bs \<Longrightarrow> objs s5 (Exit_unum_function b) =
        fan_in_upd (fan_in_vals s1 0 bs)
          (''UnumParallelSink'' @ str_nat (unum_parallel_counter s1))
          (objs s1 (Exit_unum_function b))"
proof -
  have nex: "next_obj s1 \<notin> Exit_unum_function ` set bs"
    "Suc (next_obj s1) \<notin> Exit_unum_function ` set bs"
    using ex by fastforce+
  note defs = parallel_barrier_def new_obj_def Let_def fan_in_branches_eq name_only_def
  show "e = next_obj s1" "k = Suc (next_obj s1)" "ir = [e] @ concat (map unum_IR bs) @ [k]"
    using pb by (auto simp: defs)
  show "next_obj s5 = Suc (Suc (next_obj s1))"
    "unum_parallel_counter s5 = Suc (unum_parallel_counter s1)"
    "unum_map_counter s5 = unum_map_counter s1"
    using pb by (auto simp: defs)
  show "\<And>a. a < next_obj s1 \<Longrightarrow> a \<notin> Exit_unum_function ` set bs \<Longrightarrow> objs s5 a = objs s1 a"
    using pb by (auto simp: defs)
  show "objs s5 e = \<lparr>Name = ''UnumParallel'' @ str_nat (unum_parallel_counter s1),
        Next = Some (NextNames (map (\<lambda>b. Name (objs s1 (Entry_unum_function b))) bs)),
        NextInput = Some Scalar, Checkpoint = None\<rparr>"
    using pb nex by (auto simp: defs)
  show "objs s5 k = name_only (''UnumParallelSink'' @ str_nat (unum_parallel_counter s1))"
    using pb nex by (auto simp: defs)
  fix b assume b: "b \<in> set bs"
  have ne: "Exit_unum_function b \<noteq> next_obj s1" "Exit_unum_function b \<noteq> Suc (next_obj s1)"
    using ex[OF b] by simp_all
  have ne': "\<And>q. q \<in> set bs \<Longrightarrow> Exit_unum_function q \<noteq> next_obj s1 \<and>
       Exit_unum_function q \<noteq> Suc (next_obj s1)"
    using ex by fastforce
  show "objs s5 (Exit_unum_function b) =
        fan_in_upd (fan_in_vals s1 0 bs)
          (''UnumParallelSink'' @ str_nat (unum_parallel_counter s1))
          (objs s1 (Exit_unum_function b))"
    using pb b ne apply (clarsimp simp: defs)
    apply (subst fan_in_vals_cong[where t = s1])
     apply (simp add: ne')
    apply (rule refl)
    done
qed

lemma parallel_barrier_good:
  assumes gs: "goods s bs s1" and pb: "parallel_barrier bs s1 = (e, k, ir, s5)"
  shows "good s (barrier_end n e k ir) s5"
proof -
  have ex: "\<And>b. b \<in> set bs \<Longrightarrow> Exit_unum_function b < next_obj s1"
    using goods_exit_range[OF gs] by simp
  have exl: "\<And>b. b \<in> set bs \<Longrightarrow> next_obj s \<le> Exit_unum_function b"
    using goods_exit_range[OF gs] by simp
  note p = parallel_barrier_props[OF pb ex]
  have f1: "frame s s1" using gs by (simp add: goods_def)
  have f: "frame s s5"
    unfolding frame_def
  proof (intro conjI allI impI)
    show "next_obj s \<le> next_obj s5" using f1 p(4) by (simp add: frame_def)
    show "unum_map_counter s \<le> unum_map_counter s5" using f1 p(6) by (simp add: frame_def)
    show "unum_parallel_counter s \<le> unum_parallel_counter s5"
      using f1 p(5) by (simp add: frame_def)
    fix a assume a: "a < next_obj s"
    then have "a \<notin> Exit_unum_function ` set bs" using exl by fastforce
    moreover have "a < next_obj s1" using a f1 by (simp add: frame_def)
    ultimately have "objs s5 a = objs s1 a" using p(7) by blast
    then show "objs s5 a = objs s a" using a f1 by (simp add: frame_def)
  qed
  have le: "next_obj s \<le> next_obj s1" using f1 by (simp add: frame_def)
  show ?thesis
  proof (rule goodI[OF f])
    fix a assume "a \<in> set (unum_IR (barrier_end n e k ir))"
    then have "a = e \<or> a = k \<or> (\<exists>b\<in>set bs. a \<in> set (unum_IR b))"
      by (auto simp: barrier_end_def p(3))
    then show "next_obj s \<le> a \<and> a < next_obj s5"
      using goods_range[OF gs] le by (auto simp: p(1,2,4) less_Suc_eq)
  next
    show "Entry_unum_function (barrier_end n e k ir) \<in> set (unum_IR (barrier_end n e k ir))"
      by (simp add: barrier_end_def p(3))
    show "Exit_unum_function (barrier_end n e k ir) \<in> set (unum_IR (barrier_end n e k ir))"
      by (simp add: barrier_end_def p(3))
    show "Next (objs s5 (Exit_unum_function (barrier_end n e k ir))) = None"
      by (simp add: barrier_end_def p(9) name_only_def)
    show "NextInput (objs s5 (Exit_unum_function (barrier_end n e k ir))) = None"
      by (simp add: barrier_end_def p(9) name_only_def)
  qed
qed

lemma lowering_good:
  "(\<forall>name sm s r s'. translate_state_machine' af d name sm s = Inr (r, s') \<longrightarrow> good s r s')"
proof (induction d)
  case 0
  show ?case by simp
next
  case (Suc d)
  have IH: "\<And>name sm s r s'. translate_state_machine' af d name sm s = Inr (r, s') \<Longrightarrow> good s r s'"
    using Suc.IH by blast
  have SM: "\<And>sm s r s'. translate_state_machine af d sm s = Inr (r, s') \<Longrightarrow> good s r s'"
    using IH by (auto split: option.splits)
  have BR: "translate_branches af d brs s = Inr (rs, s') \<Longrightarrow> goods s rs s'" for brs s rs s'
  proof (induction brs arbitrary: s rs s')
    case Nil
    then show ?case by (simp add: goods_Nil)
  next
    case (Cons b brs)
    from Cons.prems obtain r s1 rs' where
      1: "translate_state_machine af d b s = Inr (r, s1)"
      and 2: "translate_branches af d brs s1 = Inr (rs', s')" and 3: "rs = r # rs'"
      by (auto split: sum.splits)
    show ?case unfolding 3 by (rule goods_Cons[OF SM[OF 1] Cons.IH[OF 2]])
  qed
  show ?case
  proof (intro allI impI)
    fix name sm s r s'
    assume tr: "translate_state_machine' af (Suc d) name sm s = Inr (r, s')"
    then obtain st where st: "map_of (States sm) name = Some st"
      by (auto split: option.splits)
    show "good s r s'"
    proof (cases st)
      case (Task res e nxt)
      from tr st Task obtain f where f: "get_state_unum_function_name af res = Inr f"
        by (auto split: sum.splits)
      show ?thesis
      proof (cases "e = Some True")
        case True
        with tr st Task f have "task_end name f s = (r, s')" by simp
        then show ?thesis by (rule task_end_good)
      next
        case False
        with tr st Task f obtain nn ns s1 where
          "translate_state_machine' af d nn sm s = Inr (ns, s1)"
          "task_next name f ns s1 = (r, s')"
          by (auto split: option.splits sum.splits)
        then show ?thesis using task_next_good IH by blast
      qed
    next
      case (Map it nxt)
      from tr st Map obtain ir s1 where 1: "translate_state_machine af d it s = Inr (ir, s1)"
        by (auto split: sum.splits)
      obtain e k il s6 where 2: "map_barrier ir s1 = (e, k, il, s6)"
        by (cases "map_barrier ir s1") auto
      have g: "good s (barrier_end name e k il) s6"
        by (rule map_barrier_good[OF SM[OF 1] 2])
      show ?thesis
      proof (cases nxt)
        case None
        with tr st Map 1 2 have "r = barrier_end name e k il" "s' = s6" by simp_all
        with g show ?thesis by simp
      next
        case (Some nn)
        with tr st Map 1 2 obtain ns s7 where
          3: "translate_state_machine' af d nn sm s6 = Inr (ns, s7)"
          and 4: "barrier_next name e k il ns s7 = (r, s')"
          by (auto split: sum.splits)
        show ?thesis by (rule barrier_next_good[OF g IH[OF 3] 4])
      qed
    next
      case (Parallel brs nxt)
      from tr st Parallel obtain bs s1 where 1: "translate_branches af d brs s = Inr (bs, s1)"
        by (auto split: sum.splits)
      obtain e k il s5 where 2: "parallel_barrier bs s1 = (e, k, il, s5)"
        by (cases "parallel_barrier bs s1") auto
      have g: "good s (barrier_end name e k il) s5"
        by (rule parallel_barrier_good[OF BR[OF 1] 2])
      show ?thesis
      proof (cases nxt)
        case None
        with tr st Parallel 1 2 have "r = barrier_end name e k il" "s' = s5" by simp_all
        with g show ?thesis by simp
      next
        case (Some nn)
        with tr st Parallel 1 2 obtain ns s7 where
          3: "translate_state_machine' af d nn sm s5 = Inr (ns, s7)"
          and 4: "barrier_next name e k il ns s7 = (r, s')"
          by (auto split: sum.splits)
        show ?thesis by (rule barrier_next_good[OF g IH[OF 3] 4])
      qed
    next
      case Other
      with tr st show ?thesis by simp
    qed
  qed
qed

section \<open>Resolution of Task names\<close>

text \<open>\<open>contains\<close> is the substring test.\<close>

lemma contains_iff: "contains sub s \<longleftrightarrow> (\<exists>p q. s = p @ sub @ q)"
proof (induction s)
  case Nil
  show ?case by auto
next
  case (Cons c cs)
  show ?case
  proof
    assume "contains sub (c # cs)"
    then consider "prefix sub (c # cs)" | "contains sub cs" by auto
    then show "\<exists>p q. c # cs = p @ sub @ q"
    proof cases
      case 1
      then obtain q where "c # cs = sub @ q" by (auto simp: prefix_def)
      then have "c # cs = [] @ sub @ q" by simp
      then show ?thesis by blast
    next
      case 2
      with Cons.IH obtain p q where "cs = p @ sub @ q" by blast
      then have "c # cs = (c # p) @ sub @ q" by simp
      then show ?thesis by blast
    qed
  next
    assume "\<exists>p q. c # cs = p @ sub @ q"
    then obtain p q where pq: "c # cs = p @ sub @ q" by blast
    show "contains sub (c # cs)"
    proof (cases p)
      case Nil
      with pq have "prefix sub (c # cs)" by (simp add: prefix_def)
      then show ?thesis by simp
    next
      case (Cons x p')
      with pq have "cs = p' @ sub @ q" by simp
      with Cons.IH have "contains sub cs" by blast
      then show ?thesis by simp
    qed
  qed
qed

text \<open>
  C10. A Task whose resource does not contain \<^verbatim>\<open>arn:aws:lambda\<close> is named by its resource,
  verbatim: \<^verbatim>\<open>get_state_unum_function_name\<close> returns the resource whatever
  \<^verbatim>\<open>function-arn.yaml\<close> holds, also when the file cannot be read, and the configuration that
  the lowering emits for the Task carries that name. The file decides the name only of
  a resource that contains \<^verbatim>\<open>arn:aws:lambda\<close>.
\<close>

theorem task_name_verbatim:
  assumes "\<not> contains ''arn:aws:lambda'' resource"
  shows "get_state_unum_function_name arn_file resource = Inr resource \<and>
    (map_of (States sm) name = Some (Task resource e nxt) \<longrightarrow>
     translate_state_machine' arn_file d name sm s = Inr (r, s') \<longrightarrow>
     Name (objs s' (Entry_unum_function r)) = resource)"
proof (intro conjI impI)
  show g: "get_state_unum_function_name arn_file resource = Inr resource"
    using assms by (simp add: get_state_unum_function_name_def)
  assume st: "map_of (States sm) name = Some (Task resource e nxt)"
    and tr: "translate_state_machine' arn_file d name sm s = Inr (r, s')"
  from tr obtain d' where d: "d = Suc d'" by (cases d) auto
  show "Name (objs s' (Entry_unum_function r)) = resource"
    using tr st g unfolding d
    by (auto simp: task_end_def task_next_def new_obj_def name_only_def
        split: if_splits option.splits sum.splits)
qed

theorem task_name_verbatim_witness:
  "\<not> contains ''arn:aws:lambda'' ''f1'' \<and>
   map_of (States (StateMachine [(''A'', Task ''f1'' (Some True) None)] ''A'')) ''A'' =
     Some (Task ''f1'' (Some True) None) \<and>
   translate_state_machine' None (Suc 0) ''A''
       (StateMachine [(''A'', Task ''f1'' (Some True) None)] ''A'') start =
     Inr (fst (task_end ''A'' ''f1'' start), snd (task_end ''A'' ''f1'' start)) \<and>
   get_state_unum_function_name None ''f1'' = Inr ''f1'' \<and>
   Name (objs (snd (task_end ''A'' ''f1'' start))
     (Entry_unum_function (fst (task_end ''A'' ''f1'' start)))) = ''f1''"
proof -
  have h1: "\<not> contains ''arn:aws:lambda'' ''f1''" by simp
  have h2: "map_of (States (StateMachine [(''A'', Task ''f1'' (Some True) None)] ''A'')) ''A'' =
     Some (Task ''f1'' (Some True) None)" by simp
  have h3: "translate_state_machine' None (Suc 0) ''A''
       (StateMachine [(''A'', Task ''f1'' (Some True) None)] ''A'') start =
     Inr (fst (task_end ''A'' ''f1'' start), snd (task_end ''A'' ''f1'' start))"
    by (simp add: get_state_unum_function_name_def)
  show ?thesis
    using task_name_verbatim[OF h1, of None
        "StateMachine [(''A'', Task ''f1'' (Some True) None)] ''A''" "''A''" "Some True" None
        "Suc 0" start "fst (task_end ''A'' ''f1'' start)" "snd (task_end ''A'' ''f1'' start)"]
      h1 h2 h3
    by blast
qed

section \<open>Failures\<close>

text \<open>
  C8, as the code has it. A Task without \<^verbatim>\<open>End\<close> set to true and without \<^verbatim>\<open>Next\<close> always
  fails. The resource is resolved before \<^verbatim>\<open>End\<close> and \<^verbatim>\<open>Next\<close> are looked at, so the failure
  is the resolver's when the resource cannot be resolved, and \<open>MalformedGraph\<close> otherwise.
\<close>

theorem task_without_end_or_next_fails:
  assumes "map_of (States sm) name = Some (Task resource e None)" and "e \<noteq> Some True"
  shows "translate_state_machine' af (Suc d) name sm s =
     (case get_state_unum_function_name af resource of
        Inl err \<Rightarrow> Inl err
      | Inr f \<Rightarrow> Inl MalformedGraph)"
  using assms by (simp split: sum.splits)

theorem task_without_end_or_next_fails_witness:
  "map_of (States (StateMachine [(''A'', Task ''f1'' None None)] ''A'')) ''A'' =
     Some (Task ''f1'' None None) \<and> (None :: bool option) \<noteq> Some True \<and>
   translate_state_machine' None (Suc 0) ''A''
     (StateMachine [(''A'', Task ''f1'' None None)] ''A'') start = Inl MalformedGraph"
proof -
  have h1: "map_of (States (StateMachine [(''A'', Task ''f1'' None None)] ''A'')) ''A'' =
     Some (Task ''f1'' None None)" by simp
  have h2: "(None :: bool option) \<noteq> Some True" by simp
  show ?thesis
    using task_without_end_or_next_fails[OF h1 h2, of None 0 start] h1 h2
    by (simp add: get_state_unum_function_name_def)
qed

text \<open>
  A Task without \<^verbatim>\<open>End\<close> and \<^verbatim>\<open>Next\<close> whose resource is a Lambda ARN, with no
  \<^verbatim>\<open>function-arn.yaml\<close>: the failure is not \<open>MalformedGraph\<close>.
\<close>

theorem task_without_end_or_next_counterexample:
  "translate_state_machine' None (Suc 0) ''A''
     (StateMachine
        [(''A'', Task ''arn:aws:lambda:us-east-1:123456789012:function:f1'' None None)] ''A'')
     start = Inl UnresolvedReference \<and>
   translate_state_machine' None (Suc 0) ''A''
     (StateMachine
        [(''A'', Task ''arn:aws:lambda:us-east-1:123456789012:function:f1'' None None)] ''A'')
     start \<noteq> Inl MalformedGraph"
  by (simp add: get_state_unum_function_name_def)

text \<open>
  C5, as the code has it. A Parallel with an empty list of branches is lowered like any
  other: the loop over the branches does nothing. Without \<^verbatim>\<open>Next\<close> the result is the IR of
  \<^verbatim>\<open>UnumParallel\<close> with an empty list of targets and of \<^verbatim>\<open>UnumParallelSink\<close>; with \<^verbatim>\<open>Next\<close>
  the lowering fails only where the lowering of the successor fails, with that failure.
\<close>

theorem empty_parallel_is_lowered:
  assumes "map_of (States sm) name = Some (Parallel [] nxt)"
  shows "(nxt = None \<longrightarrow>
      (\<exists>r s'. translate_state_machine' af (Suc d) name sm s = Inr (r, s') \<and>
         emitted r s' =
           [\<lparr>Name = ''UnumParallel'' @ str_nat (unum_parallel_counter s),
              Next = Some (NextNames []), NextInput = Some Scalar, Checkpoint = None\<rparr>,
            name_only (''UnumParallelSink'' @ str_nat (unum_parallel_counter s))])) \<and>
    (\<forall>e. translate_state_machine' af (Suc d) name sm s = Inl e \<longrightarrow>
      (\<exists>nn. nxt = Some nn \<and>
         translate_state_machine' af d nn sm (snd (snd (snd (parallel_barrier [] s)))) = Inl e))"
  using assms
  by (auto simp: parallel_barrier_def new_obj_def Let_def barrier_end_def emitted_def
      name_only_def split: option.splits sum.splits prod.splits)

theorem empty_parallel_is_lowered_witness:
  "map_of (States (StateMachine [(''P'', Parallel [] None)] ''P'')) ''P'' =
     Some (Parallel [] None) \<and>
   (\<exists>r s'. translate_state_machine' None (Suc 0) ''P''
       (StateMachine [(''P'', Parallel [] None)] ''P'') start = Inr (r, s') \<and>
      emitted r s' =
        [\<lparr>Name = ''UnumParallel0'', Next = Some (NextNames []), NextInput = Some Scalar,
           Checkpoint = None\<rparr>,
         name_only ''UnumParallelSink0''])"
proof -
  have h1: "map_of (States (StateMachine [(''P'', Parallel [] None)] ''P'')) ''P'' =
     Some (Parallel [] None)" by simp
  have n: "str_nat (unum_parallel_counter start) = ''0''"
    by (simp add: start_def str_nat.simps)
  show ?thesis
    using empty_parallel_is_lowered[OF h1, of None 0 start] h1 n
    by simp
qed

text \<open>The workflow of one Parallel without branches compiles to two configurations.\<close>

theorem empty_parallel_counterexample:
  "main None (Suc 0) (StateMachine [(''P'', Parallel [] None)] ''P'') False =
     Inr [\<lparr>Name = ''UnumParallel0'', Next = Some (NextNames []), NextInput = Some Scalar,
            Checkpoint = Some False\<rparr>,
          \<lparr>Name = ''UnumParallelSink0'', Next = None, NextInput = None,
            Checkpoint = Some False\<rparr>] \<and>
   main None (Suc 0) (StateMachine [(''P'', Parallel [] None)] ''P'') False \<noteq>
     Inl MalformedGraph"
  by (simp add: main_def compile_def start_def parallel_barrier_def barrier_end_def
      new_obj_def name_only_def Let_def emitted_def set_Checkpoint_def str_nat.simps)

section \<open>The checkpoint pass\<close>

lemma has_fan_in_Checkpoint: "has_fan_in (c\<lparr>Checkpoint := v\<rparr>) = has_fan_in c"
  by simp

lemma checkpoint_pass_objs:
  "objs (checkpoint_pass dflt ir s) a =
     (if a \<in> set ir
      then (objs s a)\<lparr>Checkpoint := Some (if has_fan_in (objs s a) then True else dflt)\<rparr>
      else objs s a)"
proof (induction ir arbitrary: s)
  case Nil
  show ?case by simp
next
  case (Cons c cs)
  show ?case
    unfolding checkpoint_pass.simps Cons.IH
    by (auto simp: set_Checkpoint_def simp del: has_fan_in.simps simp add: has_fan_in_Checkpoint)
qed

text \<open>
  C3. After the checkpoint pass every configuration of the list has \<^verbatim>\<open>Checkpoint\<close>: true
  when its \<^verbatim>\<open>NextInput\<close> is a fan-in, whatever the default is, and the default of the
  template otherwise. This holds of the pass on any list in any state, and so of every
  configuration that \<^verbatim>\<open>main\<close> prints.
\<close>

theorem checkpoint_forced_on_fan_in:
  "(a \<in> set ir \<longrightarrow>
      Checkpoint (objs (checkpoint_pass dflt ir s) a) =
        Some (if has_fan_in (objs (checkpoint_pass dflt ir s) a) then True else dflt)) \<and>
   (main af d sm dflt = Inr cs \<longrightarrow> c \<in> set cs \<longrightarrow>
      Checkpoint c = Some (if has_fan_in c then True else dflt))"
proof (intro conjI impI)
  assume "a \<in> set ir"
  then show "Checkpoint (objs (checkpoint_pass dflt ir s) a) =
        Some (if has_fan_in (objs (checkpoint_pass dflt ir s) a) then True else dflt)"
    unfolding checkpoint_pass_objs
    by (simp del: has_fan_in.simps add: has_fan_in_Checkpoint)
next
  assume m: "main af d sm dflt = Inr cs" and c: "c \<in> set cs"
  obtain r s1 where tr: "translate_state_machine af d sm start = Inr (r, s1)"
    using m by (cases "translate_state_machine af d sm start")
      (auto simp: main_def compile_def simp del: translate_state_machine.simps)
  have cs: "cs = map (objs (checkpoint_pass dflt (unum_IR r) s1)) (unum_IR r)"
    using m tr by (simp add: main_def compile_def emitted_def Let_def
        del: translate_state_machine.simps)
  with c obtain a where "a \<in> set (unum_IR r)" "c = objs (checkpoint_pass dflt (unum_IR r) s1) a"
    by auto
  then show "Checkpoint c = Some (if has_fan_in c then True else dflt)"
    unfolding checkpoint_pass_objs
    by (simp del: has_fan_in.simps add: has_fan_in_Checkpoint)
qed

theorem checkpoint_forced_on_fan_in_witness:
  "(0::nat) \<in> set [0] \<and>
   Checkpoint (objs (checkpoint_pass False [0]
      (start\<lparr>objs := (objs start)(0 :=
         \<lparr>Name = ''f3'', Next = Some (NextName ''UnumMapSink0''),
          NextInput = Some (FanIn [''f3-unumIndex-*'']), Checkpoint = None\<rparr>)\<rparr>)) 0) = Some True \<and>
   main None (Suc (Suc 0))
     (StateMachine [(''M'', Map (StateMachine [(''T'', Task ''f3'' (Some True) None)] ''T'')
        None)] ''M'') False =
     Inr [\<lparr>Name = ''UnumMap0'', Next = Some (NextName ''f3''),
            NextInput = Some MapInput, Checkpoint = Some False\<rparr>,
          \<lparr>Name = ''f3'', Next = Some (NextName ''UnumMapSink0''),
            NextInput = Some (FanIn [''f3-unumIndex-*'']), Checkpoint = Some True\<rparr>,
          \<lparr>Name = ''UnumMapSink0'', Next = None, NextInput = None,
            Checkpoint = Some False\<rparr>] \<and>
   \<lparr>Name = ''UnumMapSink0'', Next = None, NextInput = None, Checkpoint = Some False\<rparr>
     \<in> set [\<lparr>Name = ''UnumMap0'', Next = Some (NextName ''f3''),
            NextInput = Some MapInput, Checkpoint = Some False\<rparr>,
          \<lparr>Name = ''f3'', Next = Some (NextName ''UnumMapSink0''),
            NextInput = Some (FanIn [''f3-unumIndex-*'']), Checkpoint = Some True\<rparr>,
          \<lparr>Name = ''UnumMapSink0'', Next = None, NextInput = None,
            Checkpoint = Some False\<rparr>] \<and>
   Checkpoint \<lparr>Name = ''UnumMapSink0'', Next = None, NextInput = None,
      Checkpoint = Some False\<rparr> = Some False"
proof -
  have m: "main None (Suc (Suc 0))
     (StateMachine [(''M'', Map (StateMachine [(''T'', Task ''f3'' (Some True) None)] ''T'')
        None)] ''M'') False =
     Inr [\<lparr>Name = ''UnumMap0'', Next = Some (NextName ''f3''),
            NextInput = Some MapInput, Checkpoint = Some False\<rparr>,
          \<lparr>Name = ''f3'', Next = Some (NextName ''UnumMapSink0''),
            NextInput = Some (FanIn [''f3-unumIndex-*'']), Checkpoint = Some True\<rparr>,
          \<lparr>Name = ''UnumMapSink0'', Next = None, NextInput = None,
            Checkpoint = Some False\<rparr>]"
    by code_simp
  show ?thesis
    using checkpoint_forced_on_fan_in[of 0 "[0]" False
        "start\<lparr>objs := (objs start)(0 :=
         \<lparr>Name = ''f3'', Next = Some (NextName ''UnumMapSink0''),
          NextInput = Some (FanIn [''f3-unumIndex-*'']), Checkpoint = None\<rparr>)\<rparr>"
        None "Suc (Suc 0)"
        "StateMachine [(''M'', Map (StateMachine [(''T'', Task ''f3'' (Some True) None)] ''T'')
        None)] ''M''"
        "[\<lparr>Name = ''UnumMap0'', Next = Some (NextName ''f3''),
            NextInput = Some MapInput, Checkpoint = Some False\<rparr>,
          \<lparr>Name = ''f3'', Next = Some (NextName ''UnumMapSink0''),
            NextInput = Some (FanIn [''f3-unumIndex-*'']), Checkpoint = Some True\<rparr>,
          \<lparr>Name = ''UnumMapSink0'', Next = None, NextInput = None,
            Checkpoint = Some False\<rparr>]"
        "\<lparr>Name = ''UnumMapSink0'', Next = None, NextInput = None, Checkpoint = Some False\<rparr>"]
      m
    by (simp add: set_Checkpoint_def)
qed

section \<open>Compiling the chain of three tasks twice\<close>

lemma chain_lowering:
  "translate_state_machine af (Suc (Suc (Suc d))) (three_task_chain ra rb rc) s =
     (case get_state_unum_function_name af ra of
        Inl e \<Rightarrow> Inl e
      | Inr fa \<Rightarrow>
          (case get_state_unum_function_name af rb of
             Inl e \<Rightarrow> Inl e
           | Inr fb \<Rightarrow>
               (case get_state_unum_function_name af rc of
                  Inl e \<Rightarrow> Inl e
                | Inr fc \<Rightarrow>
                    Inr (\<lparr>State_Name = ''A'',
                          unum_IR = [Suc (Suc (next_obj s)), Suc (next_obj s), next_obj s],
                          Entry_unum_function = Suc (Suc (next_obj s)),
                          Exit_unum_function = next_obj s\<rparr>,
                         s\<lparr>objs := (objs s)
                              (next_obj s := name_only fc,
                               Suc (next_obj s) :=
                                 \<lparr>Name = fb, Next = Some (NextName fc),
                                  NextInput = Some Scalar, Checkpoint = None\<rparr>,
                               Suc (Suc (next_obj s)) :=
                                 \<lparr>Name = fa, Next = Some (NextName fb),
                                  NextInput = Some Scalar, Checkpoint = None\<rparr>),
                            next_obj := Suc (Suc (Suc (next_obj s)))\<rparr>))))"
  by (simp add: three_task_chain_def task_end_def task_next_def new_obj_def name_only_def
      split: sum.splits)

lemma chain_compile:
  "compile af (Suc (Suc (Suc d))) (three_task_chain ra rb rc) dflt s = Inr (out, s1) \<Longrightarrow>
   \<exists>fa fb fc. get_state_unum_function_name af ra = Inr fa \<and>
     get_state_unum_function_name af rb = Inr fb \<and>
     get_state_unum_function_name af rc = Inr fc \<and>
     out = [\<lparr>Name = fa, Next = Some (NextName fb), NextInput = Some Scalar,
              Checkpoint = Some dflt\<rparr>,
            \<lparr>Name = fb, Next = Some (NextName fc), NextInput = Some Scalar,
              Checkpoint = Some dflt\<rparr>,
            \<lparr>Name = fc, Next = None, NextInput = None, Checkpoint = Some dflt\<rparr>]"
  unfolding compile_def chain_lowering
  by (auto simp: emitted_def Let_def set_Checkpoint_def name_only_def split: sum.splits)

lemma chain_compile':
  "get_state_unum_function_name af ra = Inr fa \<Longrightarrow>
   get_state_unum_function_name af rb = Inr fb \<Longrightarrow>
   get_state_unum_function_name af rc = Inr fc \<Longrightarrow>
   \<exists>s1. compile af (Suc (Suc (Suc d))) (three_task_chain ra rb rc) dflt s =
     Inr ([\<lparr>Name = fa, Next = Some (NextName fb), NextInput = Some Scalar,
              Checkpoint = Some dflt\<rparr>,
            \<lparr>Name = fb, Next = Some (NextName fc), NextInput = Some Scalar,
              Checkpoint = Some dflt\<rparr>,
            \<lparr>Name = fc, Next = None, NextInput = None, Checkpoint = Some dflt\<rparr>], s1)"
  unfolding compile_def chain_lowering
  by (auto simp: emitted_def Let_def set_Checkpoint_def name_only_def split: sum.splits)

lemma chain_shallow:
  "d < 3 \<Longrightarrow> compile af d (three_task_chain ra rb rc) dflt s \<noteq> Inr x"
proof -
  assume "d < 3"
  then consider "d = 0" | "d = Suc 0" | "d = Suc (Suc 0)" by linarith
  then show ?thesis
    by cases
      (auto simp: compile_def three_task_chain_def task_end_def task_next_def
         split: sum.splits)
qed

text \<open>
  C9. When the chain A, B, C is compiled in some state of the process and compiled again
  in the state that the first run leaves, the second run succeeds as well and prints
  the same IR.
\<close>

theorem chain_compiled_twice:
  assumes "compile af d (three_task_chain ra rb rc) dflt s = Inr (out, s1)"
  shows "\<exists>s2. compile af d (three_task_chain ra rb rc) dflt s1 = Inr (out, s2)"
proof -
  have "\<not> d < 3" using chain_shallow assms by blast
  then obtain d' where d: "d = Suc (Suc (Suc d'))"
    by (metis One_nat_def Suc_1 less_Suc_eq_0_disj not0_implies_Suc numeral_3_eq_3)
  from chain_compile[OF assms[unfolded d]] obtain fa fb fc where
    "get_state_unum_function_name af ra = Inr fa"
    "get_state_unum_function_name af rb = Inr fb"
    "get_state_unum_function_name af rc = Inr fc"
    and out: "out = [\<lparr>Name = fa, Next = Some (NextName fb), NextInput = Some Scalar,
              Checkpoint = Some dflt\<rparr>,
            \<lparr>Name = fb, Next = Some (NextName fc), NextInput = Some Scalar,
              Checkpoint = Some dflt\<rparr>,
            \<lparr>Name = fc, Next = None, NextInput = None, Checkpoint = Some dflt\<rparr>]"
    by blast
  from chain_compile'[OF this(1-3), of d' dflt s1] show ?thesis
    unfolding d out by blast
qed

theorem chain_compiled_twice_witness:
  "compile None (Suc (Suc (Suc 0))) (three_task_chain ''f1'' ''f2'' ''f3'') True start =
     Inr ([\<lparr>Name = ''f1'', Next = Some (NextName ''f2''), NextInput = Some Scalar,
             Checkpoint = Some True\<rparr>,
           \<lparr>Name = ''f2'', Next = Some (NextName ''f3''), NextInput = Some Scalar,
             Checkpoint = Some True\<rparr>,
           \<lparr>Name = ''f3'', Next = None, NextInput = None, Checkpoint = Some True\<rparr>],
          snd (projr (compile None (Suc (Suc (Suc 0)))
            (three_task_chain ''f1'' ''f2'' ''f3'') True start))) \<and>
   (\<exists>s2. compile None (Suc (Suc (Suc 0))) (three_task_chain ''f1'' ''f2'' ''f3'') True
       (snd (projr (compile None (Suc (Suc (Suc 0)))
            (three_task_chain ''f1'' ''f2'' ''f3'') True start))) =
     Inr ([\<lparr>Name = ''f1'', Next = Some (NextName ''f2''), NextInput = Some Scalar,
             Checkpoint = Some True\<rparr>,
           \<lparr>Name = ''f2'', Next = Some (NextName ''f3''), NextInput = Some Scalar,
             Checkpoint = Some True\<rparr>,
           \<lparr>Name = ''f3'', Next = None, NextInput = None, Checkpoint = Some True\<rparr>], s2))"
proof -
  have h: "compile None (Suc (Suc (Suc 0))) (three_task_chain ''f1'' ''f2'' ''f3'') True start =
     Inr ([\<lparr>Name = ''f1'', Next = Some (NextName ''f2''), NextInput = Some Scalar,
             Checkpoint = Some True\<rparr>,
           \<lparr>Name = ''f2'', Next = Some (NextName ''f3''), NextInput = Some Scalar,
             Checkpoint = Some True\<rparr>,
           \<lparr>Name = ''f3'', Next = None, NextInput = None, Checkpoint = Some True\<rparr>],
          snd (projr (compile None (Suc (Suc (Suc 0)))
            (three_task_chain ''f1'' ''f2'' ''f3'') True start)))"
    unfolding compile_def chain_lowering
    by (simp add: get_state_unum_function_name_def emitted_def Let_def set_Checkpoint_def
        name_only_def)
  show ?thesis
    using chain_compiled_twice[OF h] h by blast
qed

section \<open>The shape of a lowering\<close>

lemma lowering_good':
  "translate_state_machine' af d name sm s = Inr (r, s') \<Longrightarrow> good s r s'"
  using lowering_good by blast

lemma machine_good:
  "translate_state_machine af d sm s = Inr (r, s') \<Longrightarrow> good s r s'"
  using lowering_good' by (auto split: option.splits)

lemma branches_good:
  "translate_branches af d brs s = Inr (rs, s') \<Longrightarrow> goods s rs s'"
proof (induction brs arbitrary: s rs s')
  case Nil
  then show ?case by (simp add: goods_Nil)
next
  case (Cons b brs)
  from Cons.prems obtain r s1 rs' where
    1: "translate_state_machine af d b s = Inr (r, s1)"
    and 2: "translate_branches af d brs s1 = Inr (rs', s')" and 3: "rs = r # rs'"
    by (auto simp del: translate_state_machine.simps split: sum.splits)
  show ?case unfolding 3 by (rule goods_Cons[OF machine_good[OF 1] Cons.IH[OF 2]])
qed

lemma branches_length:
  "translate_branches af d brs s = Inr (rs, s') \<Longrightarrow> length rs = length brs"
  by (induction brs arbitrary: s rs s')
     (auto simp del: translate_state_machine.simps split: sum.splits)

lemma map_barrier_props:
  assumes mb: "map_barrier it s1 = (e, k, ir, s6)"
    and ex: "Exit_unum_function it < next_obj s1"
  shows "e = next_obj s1" "k = Suc (next_obj s1)"
    "ir = [e] @ unum_IR it @ [k]"
    "next_obj s6 = Suc (Suc (next_obj s1))"
    "unum_map_counter s6 = Suc (unum_map_counter s1)"
    "unum_parallel_counter s6 = unum_parallel_counter s1"
    "\<And>a. a < next_obj s1 \<Longrightarrow> a \<noteq> Exit_unum_function it \<Longrightarrow> objs s6 a = objs s1 a"
    "objs s6 e = \<lparr>Name = ''UnumMap'' @ str_nat (unum_map_counter s1),
        Next = Some (NextName (Name (objs s1 (Entry_unum_function it)))),
        NextInput = Some MapInput, Checkpoint = None\<rparr>"
    "objs s6 k = name_only (''UnumMapSink'' @ str_nat (unum_map_counter s1))"
    "objs s6 (Exit_unum_function it) =
       (objs s1 (Exit_unum_function it))
         \<lparr>Next := Some (NextName (''UnumMapSink'' @ str_nat (unum_map_counter s1))),
          NextInput := Some (FanIn [Name (objs s1 (Exit_unum_function it)) @ ''-unumIndex-*''])\<rparr>"
  using mb ex
  by (auto simp: map_barrier_def new_obj_def Let_def set_Next_def set_NextInput_def
      name_only_def)

text \<open>The end of the Map and Parallel branches, after the barrier.\<close>

lemma successor_props:
  assumes t: "(case nxt of
        Some nn \<Rightarrow>
          (case translate_state_machine' af d nn sm s6 of
             Inl err \<Rightarrow> Inl err
           | Inr (ns, s7) \<Rightarrow> Inr (barrier_next name e k ir ns s7))
      | None \<Rightarrow> Inr (barrier_end name e k ir, s6)) = Inr (r, s')"
    and k: "k < next_obj s6"
  shows "Entry_unum_function r = e" "set ir \<subseteq> set (unum_IR r)"
    "\<And>a. a < next_obj s6 \<Longrightarrow> a \<noteq> k \<Longrightarrow> objs s' a = objs s6 a"
    "Name (objs s' k) = Name (objs s6 k)"
    "unum_map_counter s6 \<le> unum_map_counter s'"
    "unum_parallel_counter s6 \<le> unum_parallel_counter s'"
    "next_obj s6 \<le> next_obj s'"
proof -
  have all: "Entry_unum_function r = e \<and> set ir \<subseteq> set (unum_IR r) \<and>
    (\<forall>a. a < next_obj s6 \<longrightarrow> a \<noteq> k \<longrightarrow> objs s' a = objs s6 a) \<and>
    Name (objs s' k) = Name (objs s6 k) \<and>
    unum_map_counter s6 \<le> unum_map_counter s' \<and>
    unum_parallel_counter s6 \<le> unum_parallel_counter s' \<and> next_obj s6 \<le> next_obj s'"
  proof (cases nxt)
    case None
    with t show ?thesis by (auto simp: barrier_end_def)
  next
    case (Some nn)
    with t obtain ns s7 where 1: "translate_state_machine' af d nn sm s6 = Inr (ns, s7)"
      and 2: "barrier_next name e k ir ns s7 = (r, s')"
      by (auto split: sum.splits)
    have f: "frame s6 s7" using lowering_good'[OF 1] by (simp add: good_def)
    from 2 f k show ?thesis
      by (auto simp: barrier_next_def Let_def set_Next_def set_NextInput_def frame_def)
  qed
  then show "Entry_unum_function r = e" "set ir \<subseteq> set (unum_IR r)"
    "\<And>a. a < next_obj s6 \<Longrightarrow> a \<noteq> k \<Longrightarrow> objs s' a = objs s6 a"
    "Name (objs s' k) = Name (objs s6 k)"
    "unum_map_counter s6 \<le> unum_map_counter s'"
    "unum_parallel_counter s6 \<le> unum_parallel_counter s'"
    "next_obj s6 \<le> next_obj s'"
    by blast+
qed

lemma lower_Map:
  assumes st: "map_of (States sm) name = Some (Map iter nxt)"
    and tr: "translate_state_machine' af (Suc d) name sm s = Inr (r, s')"
  obtains it s1 e k ir s6 where
    "translate_state_machine af d iter s = Inr (it, s1)"
    "map_barrier it s1 = (e, k, ir, s6)"
    "(case nxt of
        Some nn \<Rightarrow>
          (case translate_state_machine' af d nn sm s6 of
             Inl err \<Rightarrow> Inl err
           | Inr (ns, s7) \<Rightarrow> Inr (barrier_next name e k ir ns s7))
      | None \<Rightarrow> Inr (barrier_end name e k ir, s6)) = Inr (r, s')"
proof -
  from tr st obtain it s1 where 1: "translate_state_machine af d iter s = Inr (it, s1)"
    by (auto simp del: translate_state_machine.simps split: sum.splits)
  obtain e k ir s6 where 2: "map_barrier it s1 = (e, k, ir, s6)"
    by (cases "map_barrier it s1") auto
  from tr st 1 2 have "(case nxt of
        Some nn \<Rightarrow>
          (case translate_state_machine' af d nn sm s6 of
             Inl err \<Rightarrow> Inl err
           | Inr (ns, s7) \<Rightarrow> Inr (barrier_next name e k ir ns s7))
      | None \<Rightarrow> Inr (barrier_end name e k ir, s6)) = Inr (r, s')"
    by (simp del: translate_state_machine.simps)
  with 1 2 show ?thesis using that by blast
qed

lemma lower_Parallel:
  assumes st: "map_of (States sm) name = Some (Parallel brs nxt)"
    and tr: "translate_state_machine' af (Suc d) name sm s = Inr (r, s')"
  obtains bs s1 e k ir s5 where
    "translate_branches af d brs s = Inr (bs, s1)"
    "parallel_barrier bs s1 = (e, k, ir, s5)"
    "(case nxt of
        Some nn \<Rightarrow>
          (case translate_state_machine' af d nn sm s5 of
             Inl err \<Rightarrow> Inl err
           | Inr (ns, s7) \<Rightarrow> Inr (barrier_next name e k ir ns s7))
      | None \<Rightarrow> Inr (barrier_end name e k ir, s5)) = Inr (r, s')"
proof -
  from tr st obtain bs s1 where 1: "translate_branches af d brs s = Inr (bs, s1)"
    by (auto split: sum.splits)
  obtain e k ir s5 where 2: "parallel_barrier bs s1 = (e, k, ir, s5)"
    by (cases "parallel_barrier bs s1") auto
  from tr st 1 2 have "(case nxt of
        Some nn \<Rightarrow>
          (case translate_state_machine' af d nn sm s5 of
             Inl err \<Rightarrow> Inl err
           | Inr (ns, s7) \<Rightarrow> Inr (barrier_next name e k ir ns s7))
      | None \<Rightarrow> Inr (barrier_end name e k ir, s5)) = Inr (r, s')"
    by simp
  with 1 2 show ?thesis using that by blast
qed

lemma fan_in_vals_map:
  "fan_in_vals s 0 bs =
     map (\<lambda>k. Name (objs s (Exit_unum_function (bs ! k))) @ ''-unumIndex-'' @ str_nat k)
       [0..<length bs]"
  by (rule nth_equalityI) (simp_all add: length_fan_in_vals nth_fan_in_vals)

lemma str_nat_0: "str_nat 0 = ''0''"
  by (simp add: str_nat.simps)

lemma str_nat_1: "str_nat (Suc 0) = ''1''"
  by (simp add: str_nat.simps)

lemmas lowering_defs =
  get_state_unum_function_name_def task_end_def task_next_def map_barrier_def
  parallel_barrier_def barrier_end_def barrier_next_def new_obj_def name_only_def
  set_Next_def set_NextInput_def Let_def

section \<open>Deferred continuations\<close>

text \<open>
  C7. When a lowering returns, the exit it returns is a configuration that this lowering
  created, and it has no \<^verbatim>\<open>Next\<close> and no \<^verbatim>\<open>NextInput\<close>: the caller's assignment is the
  first. The lowering leaves every configuration that existed before it as it was, so a
  sink that the caller created before lowering the successor is still without \<^verbatim>\<open>Next\<close>
  when the caller sets it. The exits of the branches of a Parallel are different
  configurations, all without \<^verbatim>\<open>Next\<close> when the loop over the branches starts, so the
  loop sets each once.
\<close>

theorem exit_continuation_deferred:
  "(translate_state_machine' af d name sm s = Inr (r, s') \<longrightarrow>
      Next (objs s' (Exit_unum_function r)) = None \<and>
      NextInput (objs s' (Exit_unum_function r)) = None \<and>
      next_obj s \<le> Exit_unum_function r \<and> Exit_unum_function r < next_obj s' \<and>
      (\<forall>a<next_obj s. objs s' a = objs s a)) \<and>
   (translate_state_machine af d sm s = Inr (r, s') \<longrightarrow>
      Next (objs s' (Exit_unum_function r)) = None \<and>
      NextInput (objs s' (Exit_unum_function r)) = None \<and>
      next_obj s \<le> Exit_unum_function r \<and> Exit_unum_function r < next_obj s' \<and>
      (\<forall>a<next_obj s. objs s' a = objs s a)) \<and>
   (translate_branches af d brs s = Inr (rs, s') \<longrightarrow>
      distinct (map Exit_unum_function rs) \<and>
      (\<forall>b\<in>set rs. Next (objs s' (Exit_unum_function b)) = None \<and>
         NextInput (objs s' (Exit_unum_function b)) = None \<and>
         next_obj s \<le> Exit_unum_function b \<and> Exit_unum_function b < next_obj s') \<and>
      (\<forall>a<next_obj s. objs s' a = objs s a))"
proof -
  have g: "good s r s' \<Longrightarrow>
      Next (objs s' (Exit_unum_function r)) = None \<and>
      NextInput (objs s' (Exit_unum_function r)) = None \<and>
      next_obj s \<le> Exit_unum_function r \<and> Exit_unum_function r < next_obj s' \<and>
      (\<forall>a<next_obj s. objs s' a = objs s a)" for s r s'
    using good_range[of s r s' "Exit_unum_function r"]
    by (simp add: good_def frame_def)
  have gs: "distinct (map Exit_unum_function rs) \<and>
      (\<forall>b\<in>set rs. Next (objs s' (Exit_unum_function b)) = None \<and>
         NextInput (objs s' (Exit_unum_function b)) = None \<and>
         next_obj s \<le> Exit_unum_function b \<and> Exit_unum_function b < next_obj s') \<and>
      (\<forall>a<next_obj s. objs s' a = objs s a)" if h: "goods s rs s'"
  proof (intro conjI ballI)
    show "distinct (map Exit_unum_function rs)" using h by (simp add: goods_def)
    show "\<forall>a<next_obj s. objs s' a = objs s a" using h by (simp add: goods_def frame_def)
  next
    fix b assume b: "b \<in> set rs"
    with h obtain t t' where "frame s t" "good t b t'" "frame t' s'"
      by (auto simp: goods_def)
    then show "Next (objs s' (Exit_unum_function b)) = None"
      "NextInput (objs s' (Exit_unum_function b)) = None"
      using good_later[of t b t' s'] by simp_all
    show "next_obj s \<le> Exit_unum_function b" "Exit_unum_function b < next_obj s'"
      using goods_exit_range[OF h b] by simp_all
  qed
  show ?thesis
    using g[OF lowering_good'] g[OF machine_good] gs[OF branches_good] by blast
qed

theorem exit_continuation_deferred_witness:
  "\<exists>r s' r2 s2 rs s3.
     translate_state_machine' None (Suc 0) ''T''
       (StateMachine [(''T'', Task ''f3'' (Some True) None)] ''T'') start = Inr (r, s') \<and>
     translate_state_machine None (Suc 0)
       (StateMachine [(''T'', Task ''f3'' (Some True) None)] ''T'') start = Inr (r2, s2) \<and>
     translate_branches None (Suc 0)
       [StateMachine [(''T'', Task ''f3'' (Some True) None)] ''T''] start = Inr (rs, s3) \<and>
     Next (objs s' (Exit_unum_function r)) = None \<and>
     NextInput (objs s' (Exit_unum_function r)) = None \<and>
     next_obj start \<le> Exit_unum_function r \<and> Exit_unum_function r < next_obj s' \<and>
     Next (objs s2 (Exit_unum_function r2)) = None \<and>
     distinct (map Exit_unum_function rs) \<and>
     (\<forall>b\<in>set rs. Next (objs s3 (Exit_unum_function b)) = None)"
proof -
  obtain r s' where h1: "translate_state_machine' None (Suc 0) ''T''
       (StateMachine [(''T'', Task ''f3'' (Some True) None)] ''T'') start = Inr (r, s')"
    by (simp add: lowering_defs)
  have h2: "translate_state_machine None (Suc 0)
       (StateMachine [(''T'', Task ''f3'' (Some True) None)] ''T'') start = Inr (r, s')"
    using h1 by simp
  obtain rs s3 where h3: "translate_branches None (Suc 0)
       [StateMachine [(''T'', Task ''f3'' (Some True) None)] ''T''] start = Inr (rs, s3)"
    by (simp add: lowering_defs)
  note t1 = exit_continuation_deferred[where af = None and d = "Suc 0" and name = "''T''"
      and sm = "StateMachine [(''T'', Task ''f3'' (Some True) None)] ''T''" and s = start
      and r = r and s' = s']
  note t3 = exit_continuation_deferred[where af = None and d = "Suc 0" and s = start
      and brs = "[StateMachine [(''T'', Task ''f3'' (Some True) None)] ''T'']"
      and rs = rs and s' = s3]
  have c1: "Next (objs s' (Exit_unum_function r)) = None \<and>
     NextInput (objs s' (Exit_unum_function r)) = None \<and>
     next_obj start \<le> Exit_unum_function r \<and> Exit_unum_function r < next_obj s'"
    using t1 h1 by blast
  have c2: "Next (objs s' (Exit_unum_function r)) = None"
    using t1 h2 by blast
  have c3: "distinct (map Exit_unum_function rs) \<and>
     (\<forall>b\<in>set rs. Next (objs s3 (Exit_unum_function b)) = None)"
    using t3 h3 by blast
  show ?thesis
    using h1 h2 h3 c1 c2 c3 by blast
qed


section \<open>Fan-in of Parallel and Map\<close>

text \<open>
  C1. After a Parallel state is lowered, the lowered branches are as many as the declared
  ones, and the exit of each has \<^verbatim>\<open>Next\<close> naming the sink \<^verbatim>\<open>UnumParallelSink\<close> of this
  Parallel and a fan-in \<^verbatim>\<open>NextInput\<close> whose values are the same list for all branches: for
  each branch \<open>k\<close> in declared order, from 0, the name of its exit, \<^verbatim>\<open>-unumIndex-\<close> and
  \<open>k\<close>.
\<close>

theorem parallel_fan_in:
  assumes st: "map_of (States sm) name = Some (Parallel brs nxt)"
    and tr: "translate_state_machine' af (Suc d) name sm s = Inr (r, s')"
  shows "\<exists>bs s1 sink.
     translate_branches af d brs s = Inr (bs, s1) \<and> length bs = length brs \<and>
     sink \<in> set (unum_IR r) \<and>
     Name (objs s' sink) = ''UnumParallelSink'' @ str_nat (unum_parallel_counter s1) \<and>
     (\<forall>i<length bs.
        Exit_unum_function (bs ! i) \<in> set (unum_IR r) \<and>
        Next (objs s' (Exit_unum_function (bs ! i))) = Some (NextName (Name (objs s' sink))) \<and>
        NextInput (objs s' (Exit_unum_function (bs ! i))) =
          Some (FanIn (map (\<lambda>k. Name (objs s' (Exit_unum_function (bs ! k)))
                                @ ''-unumIndex-'' @ str_nat k) [0..<length bs])))"
proof -
  from st tr obtain bs s1 e k ir s5 where
    1: "translate_branches af d brs s = Inr (bs, s1)"
    and 2: "parallel_barrier bs s1 = (e, k, ir, s5)"
    and 3: "(case nxt of
        Some nn \<Rightarrow>
          (case translate_state_machine' af d nn sm s5 of
             Inl err \<Rightarrow> Inl err
           | Inr (ns, s7) \<Rightarrow> Inr (barrier_next name e k ir ns s7))
      | None \<Rightarrow> Inr (barrier_end name e k ir, s5)) = Inr (r, s')"
    by (rule lower_Parallel)
  have gs: "goods s bs s1" by (rule branches_good[OF 1])
  have ex: "\<And>b. b \<in> set bs \<Longrightarrow> Exit_unum_function b < next_obj s1"
    using goods_exit_range[OF gs] by simp
  note p = parallel_barrier_props[OF 2 ex]
  have k: "k < next_obj s5" by (simp add: p(2,4))
  note q = successor_props[OF 3 k]
  define nm where "nm = ''UnumParallelSink'' @ str_nat (unum_parallel_counter s1)"
  have sink: "k \<in> set (unum_IR r)" using q(2) by (auto simp: p(3))
  have nk: "Name (objs s' k) = nm" by (simp add: q(4) p(9) name_only_def nm_def)
  have b: "objs s' (Exit_unum_function b) =
      fan_in_upd (fan_in_vals s1 0 bs) nm (objs s1 (Exit_unum_function b))"
    "Exit_unum_function b \<in> set (unum_IR r)" if "b \<in> set bs" for b
  proof -
    have "Exit_unum_function b < next_obj s5" "Exit_unum_function b \<noteq> k"
      using ex[OF that] by (simp_all add: p(2,4))
    then have "objs s' (Exit_unum_function b) = objs s5 (Exit_unum_function b)" by (rule q(3))
    then show "objs s' (Exit_unum_function b) =
      fan_in_upd (fan_in_vals s1 0 bs) nm (objs s1 (Exit_unum_function b))"
      using p(10)[simplified] that by (simp add: nm_def)
    from gs that obtain t t' where "frame s t" "good t b t'" "frame t' s1"
      by (auto simp: goods_def)
    then have "Exit_unum_function b \<in> set (unum_IR b)" using good_exit by blast
    then have "Exit_unum_function b \<in> set ir" using that by (auto simp: p(3))
    then show "Exit_unum_function b \<in> set (unum_IR r)" using q(2) by blast
  qed
  have names: "Name (objs s' (Exit_unum_function (bs ! j))) =
      Name (objs s1 (Exit_unum_function (bs ! j)))" if "j < length bs" for j
    using b(1)[of "bs ! j"] that by (simp add: fan_in_upd_def)
  have vals: "fan_in_vals s1 0 bs =
     map (\<lambda>k. Name (objs s' (Exit_unum_function (bs ! k))) @ ''-unumIndex-'' @ str_nat k)
       [0..<length bs]"
    unfolding fan_in_vals_map by (rule map_cong) (simp_all add: names)
  have fin: "\<forall>i<length bs.
        Exit_unum_function (bs ! i) \<in> set (unum_IR r) \<and>
        Next (objs s' (Exit_unum_function (bs ! i))) = Some (NextName (Name (objs s' k))) \<and>
        NextInput (objs s' (Exit_unum_function (bs ! i))) =
          Some (FanIn (map (\<lambda>k. Name (objs s' (Exit_unum_function (bs ! k)))
                                @ ''-unumIndex-'' @ str_nat k) [0..<length bs]))"
  proof (intro allI impI)
    fix i assume "i < length bs"
    then have "bs ! i \<in> set bs" by simp
    from b[OF this] show "Exit_unum_function (bs ! i) \<in> set (unum_IR r) \<and>
        Next (objs s' (Exit_unum_function (bs ! i))) = Some (NextName (Name (objs s' k))) \<and>
        NextInput (objs s' (Exit_unum_function (bs ! i))) =
          Some (FanIn (map (\<lambda>k. Name (objs s' (Exit_unum_function (bs ! k)))
                                @ ''-unumIndex-'' @ str_nat k) [0..<length bs]))"
      using vals by (simp add: fan_in_upd_def nk)
  qed
  have c: "translate_branches af d brs s = Inr (bs, s1) \<and> length bs = length brs \<and>
     k \<in> set (unum_IR r) \<and>
     Name (objs s' k) = ''UnumParallelSink'' @ str_nat (unum_parallel_counter s1) \<and>
     (\<forall>i<length bs.
        Exit_unum_function (bs ! i) \<in> set (unum_IR r) \<and>
        Next (objs s' (Exit_unum_function (bs ! i))) = Some (NextName (Name (objs s' k))) \<and>
        NextInput (objs s' (Exit_unum_function (bs ! i))) =
          Some (FanIn (map (\<lambda>k. Name (objs s' (Exit_unum_function (bs ! k)))
                                @ ''-unumIndex-'' @ str_nat k) [0..<length bs])))"
    using 1 branches_length[OF 1] sink nk[unfolded nm_def] fin by (intro conjI)
  show ?thesis
    by (rule exI[of _ bs], rule exI[of _ s1], rule exI[of _ k]) (rule c)
qed

lemma scenario_3:
  "\<exists>r s'. translate_state_machine' None (Suc (Suc 0)) ''P''
       (StateMachine
          [(''P'', Parallel
             [StateMachine [(''T'', Task ''f4'' (Some True) None)] ''T'',
              StateMachine [(''T'', Task ''f5'' (Some True) None)] ''T''] None)] ''P'')
       start = Inr (r, s') \<and>
     emitted r s' =
       [\<lparr>Name = ''UnumParallel0'', Next = Some (NextNames [''f4'', ''f5'']),
          NextInput = Some Scalar, Checkpoint = None\<rparr>,
        \<lparr>Name = ''f4'', Next = Some (NextName ''UnumParallelSink0''),
          NextInput = Some (FanIn [''f4-unumIndex-0'', ''f5-unumIndex-1'']),
          Checkpoint = None\<rparr>,
        \<lparr>Name = ''f5'', Next = Some (NextName ''UnumParallelSink0''),
          NextInput = Some (FanIn [''f4-unumIndex-0'', ''f5-unumIndex-1'']),
          Checkpoint = None\<rparr>,
        \<lparr>Name = ''UnumParallelSink0'', Next = None, NextInput = None, Checkpoint = None\<rparr>]"
  by (simp add: lowering_defs start_def emitted_def str_nat_0 str_nat_1)

theorem parallel_fan_in_witness:
  "map_of (States (StateMachine
          [(''P'', Parallel
             [StateMachine [(''T'', Task ''f4'' (Some True) None)] ''T'',
              StateMachine [(''T'', Task ''f5'' (Some True) None)] ''T''] None)] ''P'')) ''P'' =
     Some (Parallel
             [StateMachine [(''T'', Task ''f4'' (Some True) None)] ''T'',
              StateMachine [(''T'', Task ''f5'' (Some True) None)] ''T''] None) \<and>
   (\<exists>r s'. translate_state_machine' None (Suc (Suc 0)) ''P''
       (StateMachine
          [(''P'', Parallel
             [StateMachine [(''T'', Task ''f4'' (Some True) None)] ''T'',
              StateMachine [(''T'', Task ''f5'' (Some True) None)] ''T''] None)] ''P'')
       start = Inr (r, s') \<and>
     emitted r s' =
       [\<lparr>Name = ''UnumParallel0'', Next = Some (NextNames [''f4'', ''f5'']),
          NextInput = Some Scalar, Checkpoint = None\<rparr>,
        \<lparr>Name = ''f4'', Next = Some (NextName ''UnumParallelSink0''),
          NextInput = Some (FanIn [''f4-unumIndex-0'', ''f5-unumIndex-1'']),
          Checkpoint = None\<rparr>,
        \<lparr>Name = ''f5'', Next = Some (NextName ''UnumParallelSink0''),
          NextInput = Some (FanIn [''f4-unumIndex-0'', ''f5-unumIndex-1'']),
          Checkpoint = None\<rparr>,
        \<lparr>Name = ''UnumParallelSink0'', Next = None, NextInput = None, Checkpoint = None\<rparr>] \<and>
     (\<exists>bs s1 sink.
        translate_branches None (Suc 0)
          [StateMachine [(''T'', Task ''f4'' (Some True) None)] ''T'',
           StateMachine [(''T'', Task ''f5'' (Some True) None)] ''T''] start = Inr (bs, s1) \<and>
        length bs =
          length [StateMachine [(''T'', Task ''f4'' (Some True) None)] ''T'',
                  StateMachine [(''T'', Task ''f5'' (Some True) None)] ''T''] \<and> sink \<in> set (unum_IR r) \<and>
        Name (objs s' sink) = ''UnumParallelSink'' @ str_nat (unum_parallel_counter s1) \<and>
        (\<forall>i<length bs.
           Exit_unum_function (bs ! i) \<in> set (unum_IR r) \<and>
           Next (objs s' (Exit_unum_function (bs ! i))) =
             Some (NextName (Name (objs s' sink))) \<and>
           NextInput (objs s' (Exit_unum_function (bs ! i))) =
             Some (FanIn (map (\<lambda>k. Name (objs s' (Exit_unum_function (bs ! k)))
                                   @ ''-unumIndex-'' @ str_nat k) [0..<length bs])))))"
proof -
  have h1: "map_of (States (StateMachine
          [(''P'', Parallel
             [StateMachine [(''T'', Task ''f4'' (Some True) None)] ''T'',
              StateMachine [(''T'', Task ''f5'' (Some True) None)] ''T''] None)] ''P'')) ''P'' =
     Some (Parallel
             [StateMachine [(''T'', Task ''f4'' (Some True) None)] ''T'',
              StateMachine [(''T'', Task ''f5'' (Some True) None)] ''T''] None)"
    by simp
  from scenario_3 obtain r s' where
    h2: "translate_state_machine' None (Suc (Suc 0)) ''P''
       (StateMachine
          [(''P'', Parallel
             [StateMachine [(''T'', Task ''f4'' (Some True) None)] ''T'',
              StateMachine [(''T'', Task ''f5'' (Some True) None)] ''T''] None)] ''P'')
       start = Inr (r, s')"
    and h3: "emitted r s' =
       [\<lparr>Name = ''UnumParallel0'', Next = Some (NextNames [''f4'', ''f5'']),
          NextInput = Some Scalar, Checkpoint = None\<rparr>,
        \<lparr>Name = ''f4'', Next = Some (NextName ''UnumParallelSink0''),
          NextInput = Some (FanIn [''f4-unumIndex-0'', ''f5-unumIndex-1'']),
          Checkpoint = None\<rparr>,
        \<lparr>Name = ''f5'', Next = Some (NextName ''UnumParallelSink0''),
          NextInput = Some (FanIn [''f4-unumIndex-0'', ''f5-unumIndex-1'']),
          Checkpoint = None\<rparr>,
        \<lparr>Name = ''UnumParallelSink0'', Next = None, NextInput = None, Checkpoint = None\<rparr>]"
    by blast
  have c: "\<exists>bs s1 sink.
        translate_branches None (Suc 0)
          [StateMachine [(''T'', Task ''f4'' (Some True) None)] ''T'',
           StateMachine [(''T'', Task ''f5'' (Some True) None)] ''T''] start = Inr (bs, s1) \<and>
        length bs =
          length [StateMachine [(''T'', Task ''f4'' (Some True) None)] ''T'',
                  StateMachine [(''T'', Task ''f5'' (Some True) None)] ''T''] \<and> sink \<in> set (unum_IR r) \<and>
        Name (objs s' sink) = ''UnumParallelSink'' @ str_nat (unum_parallel_counter s1) \<and>
        (\<forall>i<length bs.
           Exit_unum_function (bs ! i) \<in> set (unum_IR r) \<and>
           Next (objs s' (Exit_unum_function (bs ! i))) =
             Some (NextName (Name (objs s' sink))) \<and>
           NextInput (objs s' (Exit_unum_function (bs ! i))) =
             Some (FanIn (map (\<lambda>k. Name (objs s' (Exit_unum_function (bs ! k)))
                                   @ ''-unumIndex-'' @ str_nat k) [0..<length bs])))"
    by (rule parallel_fan_in[OF h1 h2])
  show ?thesis
    apply (rule conjI)
     apply (rule h1)
    apply (rule exI[of _ r])
    apply (rule exI[of _ s'])
    apply (intro conjI)
      apply (rule h2)
     apply (rule h3)
    apply (rule c)
    done
qed

lemma map_fan_in_general:
  assumes st: "map_of (States sm) name = Some (Map iter nxt)"
    and tr: "translate_state_machine' af (Suc d) name sm s = Inr (r, s')"
  shows "\<exists>it s1 sink.
     translate_state_machine af d iter s = Inr (it, s1) \<and>
     sink \<in> set (unum_IR r) \<and> Exit_unum_function it \<in> set (unum_IR r) \<and>
     Name (objs s' sink) = ''UnumMapSink'' @ str_nat (unum_map_counter s1) \<and>
     Next (objs s' (Exit_unum_function it)) = Some (NextName (Name (objs s' sink))) \<and>
     NextInput (objs s' (Exit_unum_function it)) =
       Some (FanIn [Name (objs s' (Exit_unum_function it)) @ ''-unumIndex-*''])"
proof -
  from st tr obtain it s1 e k ir s6 where
    1: "translate_state_machine af d iter s = Inr (it, s1)"
    and 2: "map_barrier it s1 = (e, k, ir, s6)"
    and 3: "(case nxt of
        Some nn \<Rightarrow>
          (case translate_state_machine' af d nn sm s6 of
             Inl err \<Rightarrow> Inl err
           | Inr (ns, s7) \<Rightarrow> Inr (barrier_next name e k ir ns s7))
      | None \<Rightarrow> Inr (barrier_end name e k ir, s6)) = Inr (r, s')"
    by (rule lower_Map)
  have g: "good s it s1" by (rule machine_good[OF 1])
  have ex: "Exit_unum_function it < next_obj s1"
    using good_range[OF g good_exit[OF g]] by simp
  note p = map_barrier_props[OF 2 ex]
  have k: "k < next_obj s6" by (simp add: p(2,4))
  note q = successor_props[OF 3 k]
  have sink: "k \<in> set (unum_IR r)" using q(2) by (auto simp: p(3))
  have exm: "Exit_unum_function it \<in> set (unum_IR r)"
    using q(2) good_exit[OF g] by (auto simp: p(3))
  have nk: "Name (objs s' k) = ''UnumMapSink'' @ str_nat (unum_map_counter s1)"
    by (simp add: q(4) p(9) name_only_def)
  have "Exit_unum_function it < next_obj s6" "Exit_unum_function it \<noteq> k"
    using ex by (simp_all add: p(2,4))
  then have "objs s' (Exit_unum_function it) = objs s6 (Exit_unum_function it)" by (rule q(3))
  then have "Next (objs s' (Exit_unum_function it)) = Some (NextName (Name (objs s' k)))"
    "NextInput (objs s' (Exit_unum_function it)) =
       Some (FanIn [Name (objs s' (Exit_unum_function it)) @ ''-unumIndex-*''])"
    by (simp_all add: p(10) nk)
  with 1 sink exm nk have c: "translate_state_machine af d iter s = Inr (it, s1) \<and>
     k \<in> set (unum_IR r) \<and> Exit_unum_function it \<in> set (unum_IR r) \<and>
     Name (objs s' k) = ''UnumMapSink'' @ str_nat (unum_map_counter s1) \<and>
     Next (objs s' (Exit_unum_function it)) = Some (NextName (Name (objs s' k))) \<and>
     NextInput (objs s' (Exit_unum_function it)) =
       Some (FanIn [Name (objs s' (Exit_unum_function it)) @ ''-unumIndex-*''])"
    by (intro conjI)
  show ?thesis
    by (rule exI[of _ it], rule exI[of _ s1], rule exI[of _ k]) (rule c)
qed

lemma scenario_2:
  "main af (Suc (Suc d))
     (StateMachine [(''M'', Map (StateMachine [(''T'', Task ''f3'' (Some True) None)] ''T'')
        None)] ''M'') dflt =
   Inr [\<lparr>Name = ''UnumMap0'', Next = Some (NextName ''f3''), NextInput = Some MapInput,
          Checkpoint = Some dflt\<rparr>,
        \<lparr>Name = ''f3'', Next = Some (NextName ''UnumMapSink0''),
          NextInput = Some (FanIn [''f3-unumIndex-*'']), Checkpoint = Some True\<rparr>,
        \<lparr>Name = ''UnumMapSink0'', Next = None, NextInput = None, Checkpoint = Some dflt\<rparr>]"
  by (simp add: main_def compile_def start_def lowering_defs emitted_def set_Checkpoint_def
      str_nat_0)

text \<open>
  C2, as the code has it. After a Map state is lowered, the exit of the iterator has
  \<^verbatim>\<open>Next\<close> naming the sink \<^verbatim>\<open>UnumMapSink\<close> of this Map and a fan-in \<^verbatim>\<open>NextInput\<close> with the one
  value made of the exit's name and \<^verbatim>\<open>-unumIndex-*\<close>. The Map over the single terminal Task
  \<^verbatim>\<open>f3\<close> compiles to \<^verbatim>\<open>UnumMap0\<close>, \<^verbatim>\<open>f3\<close> and \<^verbatim>\<open>UnumMapSink0\<close>, of which \<^verbatim>\<open>f3\<close> has
  \<^verbatim>\<open>Checkpoint\<close> true and the two others, the sink too, have the default of the template.
\<close>

theorem map_fan_in:
  "(map_of (States sm) name = Some (Map iter nxt) \<longrightarrow>
    translate_state_machine' af (Suc d) name sm s = Inr (r, s') \<longrightarrow>
    (\<exists>it s1 sink.
       translate_state_machine af d iter s = Inr (it, s1) \<and>
       sink \<in> set (unum_IR r) \<and> Exit_unum_function it \<in> set (unum_IR r) \<and>
       Name (objs s' sink) = ''UnumMapSink'' @ str_nat (unum_map_counter s1) \<and>
       Next (objs s' (Exit_unum_function it)) = Some (NextName (Name (objs s' sink))) \<and>
       NextInput (objs s' (Exit_unum_function it)) =
         Some (FanIn [Name (objs s' (Exit_unum_function it)) @ ''-unumIndex-*'']))) \<and>
   main af (Suc (Suc dm))
     (StateMachine [(''M'', Map (StateMachine [(''T'', Task ''f3'' (Some True) None)] ''T'')
        None)] ''M'') dflt =
   Inr [\<lparr>Name = ''UnumMap0'', Next = Some (NextName ''f3''), NextInput = Some MapInput,
          Checkpoint = Some dflt\<rparr>,
        \<lparr>Name = ''f3'', Next = Some (NextName ''UnumMapSink0''),
          NextInput = Some (FanIn [''f3-unumIndex-*'']), Checkpoint = Some True\<rparr>,
        \<lparr>Name = ''UnumMapSink0'', Next = None, NextInput = None, Checkpoint = Some dflt\<rparr>]"
  using map_fan_in_general scenario_2 by blast

theorem map_fan_in_witness:
  "map_of (States (StateMachine
       [(''M'', Map (StateMachine [(''T'', Task ''f3'' (Some True) None)] ''T'') None)] ''M''))
     ''M'' = Some (Map (StateMachine [(''T'', Task ''f3'' (Some True) None)] ''T'') None) \<and>
   (\<exists>r s'. translate_state_machine' None (Suc (Suc 0)) ''M''
       (StateMachine
          [(''M'', Map (StateMachine [(''T'', Task ''f3'' (Some True) None)] ''T'') None)] ''M'')
       start = Inr (r, s') \<and>
      (\<exists>it s1 sink.
         translate_state_machine None (Suc 0)
           (StateMachine [(''T'', Task ''f3'' (Some True) None)] ''T'') start = Inr (it, s1) \<and>
         sink \<in> set (unum_IR r) \<and> Exit_unum_function it \<in> set (unum_IR r) \<and>
         Name (objs s' sink) = ''UnumMapSink'' @ str_nat (unum_map_counter s1) \<and>
         Next (objs s' (Exit_unum_function it)) = Some (NextName (Name (objs s' sink))) \<and>
         NextInput (objs s' (Exit_unum_function it)) =
           Some (FanIn [Name (objs s' (Exit_unum_function it)) @ ''-unumIndex-*'']))) \<and>
   main None (Suc (Suc 0))
     (StateMachine [(''M'', Map (StateMachine [(''T'', Task ''f3'' (Some True) None)] ''T'')
        None)] ''M'') True =
   Inr [\<lparr>Name = ''UnumMap0'', Next = Some (NextName ''f3''), NextInput = Some MapInput,
          Checkpoint = Some True\<rparr>,
        \<lparr>Name = ''f3'', Next = Some (NextName ''UnumMapSink0''),
          NextInput = Some (FanIn [''f3-unumIndex-*'']), Checkpoint = Some True\<rparr>,
        \<lparr>Name = ''UnumMapSink0'', Next = None, NextInput = None, Checkpoint = Some True\<rparr>]"
proof -
  have h1: "map_of (States (StateMachine
       [(''M'', Map (StateMachine [(''T'', Task ''f3'' (Some True) None)] ''T'') None)] ''M''))
     ''M'' = Some (Map (StateMachine [(''T'', Task ''f3'' (Some True) None)] ''T'') None)"
    by simp
  obtain r s' where h2: "translate_state_machine' None (Suc (Suc 0)) ''M''
       (StateMachine
          [(''M'', Map (StateMachine [(''T'', Task ''f3'' (Some True) None)] ''T'') None)] ''M'')
       start = Inr (r, s')"
    by (simp add: lowering_defs)
  note t = map_fan_in[where sm = "StateMachine
          [(''M'', Map (StateMachine [(''T'', Task ''f3'' (Some True) None)] ''T'') None)] ''M''"
      and name = "''M''" and nxt = None and af = None and d = "Suc 0" and dm = 0 and s = start
      and r = r and s' = s' and dflt = True
      and iter = "StateMachine [(''T'', Task ''f3'' (Some True) None)] ''T''"]
  show ?thesis
    apply (rule conjI)
     apply (rule h1)
    apply (rule conjI)
     apply (rule exI[of _ r])
     apply (rule exI[of _ s'])
     apply (rule conjI)
      apply (rule h2)
     apply (rule t[THEN conjunct1, rule_format, OF h1 h2])
    apply (rule t[THEN conjunct2])
    done
qed

text \<open>
  With the default \<^verbatim>\<open>Checkpoint\<close> false the sink of the scenario has \<^verbatim>\<open>Checkpoint\<close> false.
\<close>

theorem map_fan_in_counterexample:
  "main None (Suc (Suc 0))
     (StateMachine [(''M'', Map (StateMachine [(''T'', Task ''f3'' (Some True) None)] ''T'')
        None)] ''M'') False =
   Inr [\<lparr>Name = ''UnumMap0'', Next = Some (NextName ''f3''), NextInput = Some MapInput,
          Checkpoint = Some False\<rparr>,
        \<lparr>Name = ''f3'', Next = Some (NextName ''UnumMapSink0''),
          NextInput = Some (FanIn [''f3-unumIndex-*'']), Checkpoint = Some True\<rparr>,
        \<lparr>Name = ''UnumMapSink0'', Next = None, NextInput = None,
          Checkpoint = Some False\<rparr>] \<and>
   Checkpoint \<lparr>Name = ''UnumMapSink0'', Next = None, NextInput = None,
      Checkpoint = Some False\<rparr> \<noteq> Some True"
  by (simp add: main_def compile_def start_def lowering_defs emitted_def set_Checkpoint_def
      str_nat_0)

section \<open>The order of lowering and naming\<close>

lemma map_entry_name:
  assumes st: "map_of (States sm) name = Some (Map iter nxt)"
    and tr: "translate_state_machine' af (Suc d) name sm s = Inr (r, s')"
  obtains it s1 sink where
    "translate_state_machine af d iter s = Inr (it, s1)"
    "Name (objs s' (Entry_unum_function r)) = ''UnumMap'' @ str_nat (unum_map_counter s1)"
    "sink \<in> set (unum_IR r)"
    "Name (objs s' sink) = ''UnumMapSink'' @ str_nat (unum_map_counter s1)"
    "unum_map_counter s \<le> unum_map_counter s1"
    "unum_map_counter s1 < unum_map_counter s'"
    "\<forall>a<next_obj s1. Name (objs s' a) = Name (objs s1 a)"
proof -
  from st tr obtain it s1 e k ir s6 where
    1: "translate_state_machine af d iter s = Inr (it, s1)"
    and 2: "map_barrier it s1 = (e, k, ir, s6)"
    and 3: "(case nxt of
        Some nn \<Rightarrow>
          (case translate_state_machine' af d nn sm s6 of
             Inl err \<Rightarrow> Inl err
           | Inr (ns, s7) \<Rightarrow> Inr (barrier_next name e k ir ns s7))
      | None \<Rightarrow> Inr (barrier_end name e k ir, s6)) = Inr (r, s')"
    by (rule lower_Map)
  have g: "good s it s1" by (rule machine_good[OF 1])
  have ex: "Exit_unum_function it < next_obj s1"
    using good_range[OF g good_exit[OF g]] by simp
  note p = map_barrier_props[OF 2 ex]
  have k: "k < next_obj s6" by (simp add: p(2,4))
  note q = successor_props[OF 3 k]
  have sink: "k \<in> set (unum_IR r)" using q(2) by (auto simp: p(3))
  have nk: "Name (objs s' k) = ''UnumMapSink'' @ str_nat (unum_map_counter s1)"
    by (simp add: q(4) p(9) name_only_def)
  have "e < next_obj s6" "e \<noteq> k" by (simp_all add: p(1,2,4))
  then have "objs s' e = objs s6 e" by (rule q(3))
  then have ne: "Name (objs s' (Entry_unum_function r)) =
      ''UnumMap'' @ str_nat (unum_map_counter s1)"
    by (simp add: q(1) p(8))
  have c1: "unum_map_counter s \<le> unum_map_counter s1"
    using g by (simp add: good_def frame_def)
  have c2: "unum_map_counter s1 < unum_map_counter s'"
    using q(5) by (simp add: p(5))
  have kept: "\<forall>a<next_obj s1. Name (objs s' a) = Name (objs s1 a)"
  proof (intro allI impI)
    fix a assume a: "a < next_obj s1"
    then have "a < next_obj s6" "a \<noteq> k" by (simp_all add: p(2,4))
    then have "objs s' a = objs s6 a" by (rule q(3))
    moreover have "Name (objs s6 a) = Name (objs s1 a)"
      using p(7)[OF a] p(10) by (cases "a = Exit_unum_function it") simp_all
    ultimately show "Name (objs s' a) = Name (objs s1 a)" by simp
  qed
  show ?thesis by (rule that[OF 1 ne sink nk c1 c2 kept])
qed

lemma parallel_entry_name:
  assumes st: "map_of (States sm) name = Some (Parallel brs nxt)"
    and tr: "translate_state_machine' af (Suc d) name sm s = Inr (r, s')"
  obtains bs s1 sink where
    "translate_branches af d brs s = Inr (bs, s1)"
    "Name (objs s' (Entry_unum_function r)) =
       ''UnumParallel'' @ str_nat (unum_parallel_counter s1)"
    "sink \<in> set (unum_IR r)"
    "Name (objs s' sink) = ''UnumParallelSink'' @ str_nat (unum_parallel_counter s1)"
    "unum_parallel_counter s \<le> unum_parallel_counter s1"
    "unum_parallel_counter s1 < unum_parallel_counter s'"
proof -
  from st tr obtain bs s1 e k ir s5 where
    1: "translate_branches af d brs s = Inr (bs, s1)"
    and 2: "parallel_barrier bs s1 = (e, k, ir, s5)"
    and 3: "(case nxt of
        Some nn \<Rightarrow>
          (case translate_state_machine' af d nn sm s5 of
             Inl err \<Rightarrow> Inl err
           | Inr (ns, s7) \<Rightarrow> Inr (barrier_next name e k ir ns s7))
      | None \<Rightarrow> Inr (barrier_end name e k ir, s5)) = Inr (r, s')"
    by (rule lower_Parallel)
  have gs: "goods s bs s1" by (rule branches_good[OF 1])
  have ex: "\<And>b. b \<in> set bs \<Longrightarrow> Exit_unum_function b < next_obj s1"
    using goods_exit_range[OF gs] by simp
  note p = parallel_barrier_props[OF 2 ex]
  have k: "k < next_obj s5" by (simp add: p(2,4))
  note q = successor_props[OF 3 k]
  have sink: "k \<in> set (unum_IR r)" using q(2) by (auto simp: p(3))
  have nk: "Name (objs s' k) = ''UnumParallelSink'' @ str_nat (unum_parallel_counter s1)"
    by (simp add: q(4) p(9) name_only_def)
  have "e < next_obj s5" "e \<noteq> k" by (simp_all add: p(1,2,4))
  then have "objs s' e = objs s5 e" by (rule q(3))
  then have ne: "Name (objs s' (Entry_unum_function r)) =
      ''UnumParallel'' @ str_nat (unum_parallel_counter s1)"
    by (simp add: q(1) p(8))
  have c1: "unum_parallel_counter s \<le> unum_parallel_counter s1"
    using gs by (simp add: goods_def frame_def)
  have c2: "unum_parallel_counter s1 < unum_parallel_counter s'"
    using q(6) by (simp add: p(5))
  show ?thesis by (rule that[OF 1 ne sink nk c1 c2])
qed

lemma nested_map_entry:
  assumes 1: "translate_state_machine af d iter s = Inr (it, s1)"
    and st: "map_of (States iter) (StartAt iter) = Some (Map iter2 nxt2)"
  shows "\<exists>k<unum_map_counter s1.
     Name (objs s1 (Entry_unum_function it)) = ''UnumMap'' @ str_nat k"
proof -
  from 1 st have tr: "translate_state_machine' af d (StartAt iter) iter s = Inr (it, s1)"
    by simp
  then obtain d' where d: "d = Suc d'" by (cases d) auto
  from st tr[unfolded d] obtain it2 t sink where
    "translate_state_machine af d' iter2 s = Inr (it2, t)"
    and a: "Name (objs s1 (Entry_unum_function it)) = ''UnumMap'' @ str_nat (unum_map_counter t)"
    and "sink \<in> set (unum_IR it)"
    and "Name (objs s1 sink) = ''UnumMapSink'' @ str_nat (unum_map_counter t)"
    and "unum_map_counter s \<le> unum_map_counter t"
    and b: "unum_map_counter t < unum_map_counter s1"
    and "\<forall>a<next_obj t. Name (objs s1 a) = Name (objs t a)"
    by (rule map_entry_name)
  show ?thesis
    by (rule exI[of _ "unum_map_counter t"]) (rule conjI[OF b a])
qed

text \<open>
  C6, as the code has it. A Map state lowers its iterator first; only then are
  \<^verbatim>\<open>UnumMap\<close> and \<^verbatim>\<open>UnumMapSink\<close> named from the map counter as the iterator's lowering
  left it, and the counter advanced. So when the iterator starts with a Map, the inner
  Map's \<^verbatim>\<open>UnumMap\<close> carries a strictly smaller counter value than the outer one's. A
  Parallel state likewise lowers all its branches before \<^verbatim>\<open>UnumParallel\<close> and
  \<^verbatim>\<open>UnumParallelSink\<close> are named from the parallel counter.
\<close>

theorem barrier_named_after_body:
  "(map_of (States sm) name = Some (Map iter nxt) \<longrightarrow>
    translate_state_machine' af (Suc d) name sm s = Inr (r, s') \<longrightarrow>
    (\<exists>it s1 sink.
       translate_state_machine af d iter s = Inr (it, s1) \<and>
       Name (objs s' (Entry_unum_function r)) = ''UnumMap'' @ str_nat (unum_map_counter s1) \<and>
       sink \<in> set (unum_IR r) \<and>
       Name (objs s' sink) = ''UnumMapSink'' @ str_nat (unum_map_counter s1) \<and>
       unum_map_counter s \<le> unum_map_counter s1 \<and>
       unum_map_counter s1 < unum_map_counter s' \<and>
       (\<forall>iter2 nxt2. map_of (States iter) (StartAt iter) = Some (Map iter2 nxt2) \<longrightarrow>
          (\<exists>k<unum_map_counter s1.
             Name (objs s' (Entry_unum_function it)) = ''UnumMap'' @ str_nat k)))) \<and>
   (map_of (States sm) name = Some (Parallel brs nxt) \<longrightarrow>
    translate_state_machine' af (Suc d) name sm s = Inr (r, s') \<longrightarrow>
    (\<exists>bs s1 sink.
       translate_branches af d brs s = Inr (bs, s1) \<and>
       Name (objs s' (Entry_unum_function r)) =
         ''UnumParallel'' @ str_nat (unum_parallel_counter s1) \<and>
       sink \<in> set (unum_IR r) \<and>
       Name (objs s' sink) = ''UnumParallelSink'' @ str_nat (unum_parallel_counter s1) \<and>
       unum_parallel_counter s \<le> unum_parallel_counter s1 \<and>
       unum_parallel_counter s1 < unum_parallel_counter s'))"
proof (intro conjI impI)
  assume st: "map_of (States sm) name = Some (Map iter nxt)"
    and tr: "translate_state_machine' af (Suc d) name sm s = Inr (r, s')"
  from st tr obtain it s1 sink where
    1: "translate_state_machine af d iter s = Inr (it, s1)"
    and 2: "Name (objs s' (Entry_unum_function r)) = ''UnumMap'' @ str_nat (unum_map_counter s1)"
    and 3: "sink \<in> set (unum_IR r)"
    and 4: "Name (objs s' sink) = ''UnumMapSink'' @ str_nat (unum_map_counter s1)"
    and 5: "unum_map_counter s \<le> unum_map_counter s1"
    and 6: "unum_map_counter s1 < unum_map_counter s'"
    and kept: "\<forall>a<next_obj s1. Name (objs s' a) = Name (objs s1 a)"
    by (rule map_entry_name)
  have g: "good s it s1" by (rule machine_good[OF 1])
  have en: "Entry_unum_function it < next_obj s1"
    using good_range[OF g good_entry[OF g]] by simp
  have ke: "Name (objs s' (Entry_unum_function it)) = Name (objs s1 (Entry_unum_function it))"
    using kept en by blast
  have 7: "\<forall>iter2 nxt2. map_of (States iter) (StartAt iter) = Some (Map iter2 nxt2) \<longrightarrow>
          (\<exists>k<unum_map_counter s1.
             Name (objs s' (Entry_unum_function it)) = ''UnumMap'' @ str_nat k)"
    unfolding ke using nested_map_entry[OF 1] by blast
  have c: "translate_state_machine af d iter s = Inr (it, s1) \<and>
       Name (objs s' (Entry_unum_function r)) = ''UnumMap'' @ str_nat (unum_map_counter s1) \<and>
       sink \<in> set (unum_IR r) \<and>
       Name (objs s' sink) = ''UnumMapSink'' @ str_nat (unum_map_counter s1) \<and>
       unum_map_counter s \<le> unum_map_counter s1 \<and>
       unum_map_counter s1 < unum_map_counter s' \<and>
       (\<forall>iter2 nxt2. map_of (States iter) (StartAt iter) = Some (Map iter2 nxt2) \<longrightarrow>
          (\<exists>k<unum_map_counter s1.
             Name (objs s' (Entry_unum_function it)) = ''UnumMap'' @ str_nat k))"
    using 1 2 3 4 5 6 7 by (intro conjI)
  show "\<exists>it s1 sink.
       translate_state_machine af d iter s = Inr (it, s1) \<and>
       Name (objs s' (Entry_unum_function r)) = ''UnumMap'' @ str_nat (unum_map_counter s1) \<and>
       sink \<in> set (unum_IR r) \<and>
       Name (objs s' sink) = ''UnumMapSink'' @ str_nat (unum_map_counter s1) \<and>
       unum_map_counter s \<le> unum_map_counter s1 \<and>
       unum_map_counter s1 < unum_map_counter s' \<and>
       (\<forall>iter2 nxt2. map_of (States iter) (StartAt iter) = Some (Map iter2 nxt2) \<longrightarrow>
          (\<exists>k<unum_map_counter s1.
             Name (objs s' (Entry_unum_function it)) = ''UnumMap'' @ str_nat k))"
    by (rule exI[of _ it], rule exI[of _ s1], rule exI[of _ sink]) (rule c)
next
  assume st: "map_of (States sm) name = Some (Parallel brs nxt)"
    and tr: "translate_state_machine' af (Suc d) name sm s = Inr (r, s')"
  show "\<exists>bs s1 sink.
       translate_branches af d brs s = Inr (bs, s1) \<and>
       Name (objs s' (Entry_unum_function r)) =
         ''UnumParallel'' @ str_nat (unum_parallel_counter s1) \<and>
       sink \<in> set (unum_IR r) \<and>
       Name (objs s' sink) = ''UnumParallelSink'' @ str_nat (unum_parallel_counter s1) \<and>
       unum_parallel_counter s \<le> unum_parallel_counter s1 \<and>
       unum_parallel_counter s1 < unum_parallel_counter s'"
  proof -
    from st tr obtain bs s1 sink where
      1: "translate_branches af d brs s = Inr (bs, s1)"
      and 2: "Name (objs s' (Entry_unum_function r)) =
         ''UnumParallel'' @ str_nat (unum_parallel_counter s1)"
      and 3: "sink \<in> set (unum_IR r)"
      and 4: "Name (objs s' sink) = ''UnumParallelSink'' @ str_nat (unum_parallel_counter s1)"
      and 5: "unum_parallel_counter s \<le> unum_parallel_counter s1"
      and 6: "unum_parallel_counter s1 < unum_parallel_counter s'"
      by (rule parallel_entry_name)
    have c: "translate_branches af d brs s = Inr (bs, s1) \<and>
       Name (objs s' (Entry_unum_function r)) =
         ''UnumParallel'' @ str_nat (unum_parallel_counter s1) \<and>
       sink \<in> set (unum_IR r) \<and>
       Name (objs s' sink) = ''UnumParallelSink'' @ str_nat (unum_parallel_counter s1) \<and>
       unum_parallel_counter s \<le> unum_parallel_counter s1 \<and>
       unum_parallel_counter s1 < unum_parallel_counter s'"
      using 1 2 3 4 5 6 by (intro conjI)
    show ?thesis
      by (rule exI[of _ bs], rule exI[of _ s1], rule exI[of _ sink]) (rule c)
  qed
qed

theorem barrier_named_after_body_witness:
  "map_of (States (StateMachine
        [(''Outer'', Map
           (StateMachine
              [(''Inner'', Map (StateMachine [(''T'', Task ''f3'' (Some True) None)] ''T'')
                 None)] ''Inner'') None)] ''Outer'')) ''Outer'' =
     Some (Map (StateMachine
              [(''Inner'', Map (StateMachine [(''T'', Task ''f3'' (Some True) None)] ''T'')
                 None)] ''Inner'') None) \<and>
   map_of (States (StateMachine
              [(''Inner'', Map (StateMachine [(''T'', Task ''f3'' (Some True) None)] ''T'')
                 None)] ''Inner''))
      (StartAt (StateMachine
              [(''Inner'', Map (StateMachine [(''T'', Task ''f3'' (Some True) None)] ''T'')
                 None)] ''Inner'')) =
     Some (Map (StateMachine [(''T'', Task ''f3'' (Some True) None)] ''T'') None) \<and>
   (\<exists>r s'. translate_state_machine' None (Suc (Suc (Suc 0))) ''Outer''
      (StateMachine
        [(''Outer'', Map
           (StateMachine
              [(''Inner'', Map (StateMachine [(''T'', Task ''f3'' (Some True) None)] ''T'')
                 None)] ''Inner'') None)] ''Outer'') start = Inr (r, s') \<and>
      (\<exists>it s1 sink.
         translate_state_machine None (Suc (Suc 0))
           (StateMachine
              [(''Inner'', Map (StateMachine [(''T'', Task ''f3'' (Some True) None)] ''T'')
                 None)] ''Inner'') start = Inr (it, s1) \<and>
         Name (objs s' (Entry_unum_function r)) = ''UnumMap'' @ str_nat (unum_map_counter s1) \<and>
         sink \<in> set (unum_IR r) \<and>
         Name (objs s' sink) = ''UnumMapSink'' @ str_nat (unum_map_counter s1) \<and>
         (\<exists>k<unum_map_counter s1.
            Name (objs s' (Entry_unum_function it)) = ''UnumMap'' @ str_nat k))) \<and>
   map_of (States (StateMachine
          [(''P'', Parallel
             [StateMachine [(''T'', Task ''f4'' (Some True) None)] ''T'',
              StateMachine [(''T'', Task ''f5'' (Some True) None)] ''T''] None)] ''P'')) ''P'' =
     Some (Parallel [StateMachine [(''T'', Task ''f4'' (Some True) None)] ''T'',
              StateMachine [(''T'', Task ''f5'' (Some True) None)] ''T''] None) \<and>
   (\<exists>r s'. translate_state_machine' None (Suc (Suc 0)) ''P''
      (StateMachine
          [(''P'', Parallel
             [StateMachine [(''T'', Task ''f4'' (Some True) None)] ''T'',
              StateMachine [(''T'', Task ''f5'' (Some True) None)] ''T''] None)] ''P'') start = Inr (r, s') \<and>
      (\<exists>bs s1 sink.
         translate_branches None (Suc 0)
           [StateMachine [(''T'', Task ''f4'' (Some True) None)] ''T'',
              StateMachine [(''T'', Task ''f5'' (Some True) None)] ''T''] start = Inr (bs, s1) \<and>
         Name (objs s' (Entry_unum_function r)) =
           ''UnumParallel'' @ str_nat (unum_parallel_counter s1) \<and>
         sink \<in> set (unum_IR r) \<and>
         Name (objs s' sink) = ''UnumParallelSink'' @ str_nat (unum_parallel_counter s1)))"
proof -
  have h1: "map_of (States (StateMachine
        [(''Outer'', Map
           (StateMachine
              [(''Inner'', Map (StateMachine [(''T'', Task ''f3'' (Some True) None)] ''T'')
                 None)] ''Inner'') None)] ''Outer'')) ''Outer'' =
     Some (Map (StateMachine
              [(''Inner'', Map (StateMachine [(''T'', Task ''f3'' (Some True) None)] ''T'')
                 None)] ''Inner'') None)"
    by simp
  have h2: "map_of (States (StateMachine
              [(''Inner'', Map (StateMachine [(''T'', Task ''f3'' (Some True) None)] ''T'')
                 None)] ''Inner''))
      (StartAt (StateMachine
              [(''Inner'', Map (StateMachine [(''T'', Task ''f3'' (Some True) None)] ''T'')
                 None)] ''Inner'')) =
     Some (Map (StateMachine [(''T'', Task ''f3'' (Some True) None)] ''T'') None)"
    by simp
  obtain r s' where h3: "translate_state_machine' None (Suc (Suc (Suc 0))) ''Outer''
      (StateMachine
        [(''Outer'', Map
           (StateMachine
              [(''Inner'', Map (StateMachine [(''T'', Task ''f3'' (Some True) None)] ''T'')
                 None)] ''Inner'') None)] ''Outer'') start = Inr (r, s')"
    by (simp add: lowering_defs)
  have h4: "map_of (States (StateMachine
          [(''P'', Parallel
             [StateMachine [(''T'', Task ''f4'' (Some True) None)] ''T'',
              StateMachine [(''T'', Task ''f5'' (Some True) None)] ''T''] None)] ''P'')) ''P'' =
     Some (Parallel [StateMachine [(''T'', Task ''f4'' (Some True) None)] ''T'',
              StateMachine [(''T'', Task ''f5'' (Some True) None)] ''T''] None)"
    by simp
  obtain q t' where h5: "translate_state_machine' None (Suc (Suc 0)) ''P''
      (StateMachine
          [(''P'', Parallel
             [StateMachine [(''T'', Task ''f4'' (Some True) None)] ''T'',
              StateMachine [(''T'', Task ''f5'' (Some True) None)] ''T''] None)] ''P'') start = Inr (q, t')"
    by (simp add: lowering_defs)
  note t1 = barrier_named_after_body[THEN conjunct1, rule_format, OF h1 h3]
  note t2 = barrier_named_after_body[THEN conjunct2, rule_format, OF h4 h5]
  from t1 obtain it s1 sink where
    a1: "translate_state_machine None (Suc (Suc 0))
           (StateMachine
              [(''Inner'', Map (StateMachine [(''T'', Task ''f3'' (Some True) None)] ''T'')
                 None)] ''Inner'') start = Inr (it, s1)"
    and a2: "Name (objs s' (Entry_unum_function r)) = ''UnumMap'' @ str_nat (unum_map_counter s1)"
    and a3: "sink \<in> set (unum_IR r)"
    and a4: "Name (objs s' sink) = ''UnumMapSink'' @ str_nat (unum_map_counter s1)"
    and a5: "unum_map_counter start \<le> unum_map_counter s1"
    and a6: "unum_map_counter s1 < unum_map_counter s'"
    and a7: "\<forall>iter2 nxt2.
       map_of (States (StateMachine
              [(''Inner'', Map (StateMachine [(''T'', Task ''f3'' (Some True) None)] ''T'')
                 None)] ''Inner''))
         (StartAt (StateMachine
              [(''Inner'', Map (StateMachine [(''T'', Task ''f3'' (Some True) None)] ''T'')
                 None)] ''Inner'')) = Some (Map iter2 nxt2) \<longrightarrow>
       (\<exists>k<unum_map_counter s1.
          Name (objs s' (Entry_unum_function it)) = ''UnumMap'' @ str_nat k)"
    by (elim exE conjE) (rule that)
  have a8: "\<exists>k<unum_map_counter s1.
            Name (objs s' (Entry_unum_function it)) = ''UnumMap'' @ str_nat k"
    by (rule a7[rule_format, OF h2])
  have c1: "translate_state_machine None (Suc (Suc 0))
           (StateMachine
              [(''Inner'', Map (StateMachine [(''T'', Task ''f3'' (Some True) None)] ''T'')
                 None)] ''Inner'') start = Inr (it, s1) \<and>
         Name (objs s' (Entry_unum_function r)) = ''UnumMap'' @ str_nat (unum_map_counter s1) \<and>
         sink \<in> set (unum_IR r) \<and>
         Name (objs s' sink) = ''UnumMapSink'' @ str_nat (unum_map_counter s1) \<and>
         (\<exists>k<unum_map_counter s1.
            Name (objs s' (Entry_unum_function it)) = ''UnumMap'' @ str_nat k)"
    using a1 a2 a3 a4 a8 by (intro conjI)
  from t2 obtain bs u sink2 where
    b1: "translate_branches None (Suc 0)
           [StateMachine [(''T'', Task ''f4'' (Some True) None)] ''T'',
              StateMachine [(''T'', Task ''f5'' (Some True) None)] ''T''] start = Inr (bs, u)"
    and b2: "Name (objs t' (Entry_unum_function q)) =
           ''UnumParallel'' @ str_nat (unum_parallel_counter u)"
    and b3: "sink2 \<in> set (unum_IR q)"
    and b4: "Name (objs t' sink2) = ''UnumParallelSink'' @ str_nat (unum_parallel_counter u)"
    and b5: "unum_parallel_counter start \<le> unum_parallel_counter u"
    and b6: "unum_parallel_counter u < unum_parallel_counter t'"
    by (elim exE conjE) (rule that)
  have c2: "translate_branches None (Suc 0)
           [StateMachine [(''T'', Task ''f4'' (Some True) None)] ''T'',
              StateMachine [(''T'', Task ''f5'' (Some True) None)] ''T''] start = Inr (bs, u) \<and>
         Name (objs t' (Entry_unum_function q)) =
           ''UnumParallel'' @ str_nat (unum_parallel_counter u) \<and>
         sink2 \<in> set (unum_IR q) \<and>
         Name (objs t' sink2) = ''UnumParallelSink'' @ str_nat (unum_parallel_counter u)"
    using b1 b2 b3 b4 by (intro conjI)
  have e1: "\<exists>r s'. translate_state_machine' None (Suc (Suc (Suc 0))) ''Outer''
      (StateMachine
        [(''Outer'', Map
           (StateMachine
              [(''Inner'', Map (StateMachine [(''T'', Task ''f3'' (Some True) None)] ''T'')
                 None)] ''Inner'') None)] ''Outer'') start = Inr (r, s') \<and>
      (\<exists>it s1 sink.
         translate_state_machine None (Suc (Suc 0))
           (StateMachine
              [(''Inner'', Map (StateMachine [(''T'', Task ''f3'' (Some True) None)] ''T'')
                 None)] ''Inner'') start = Inr (it, s1) \<and>
         Name (objs s' (Entry_unum_function r)) = ''UnumMap'' @ str_nat (unum_map_counter s1) \<and>
         sink \<in> set (unum_IR r) \<and>
         Name (objs s' sink) = ''UnumMapSink'' @ str_nat (unum_map_counter s1) \<and>
         (\<exists>k<unum_map_counter s1.
            Name (objs s' (Entry_unum_function it)) = ''UnumMap'' @ str_nat k))"
    apply (rule exI[of _ r], rule exI[of _ s'], rule conjI[OF h3])
    apply (rule exI[of _ it], rule exI[of _ s1], rule exI[of _ sink])
    apply (rule c1)
    done
  have e2: "\<exists>r s'. translate_state_machine' None (Suc (Suc 0)) ''P''
      (StateMachine
          [(''P'', Parallel
             [StateMachine [(''T'', Task ''f4'' (Some True) None)] ''T'',
              StateMachine [(''T'', Task ''f5'' (Some True) None)] ''T''] None)] ''P'') start = Inr (r, s') \<and>
      (\<exists>bs s1 sink.
         translate_branches None (Suc 0)
           [StateMachine [(''T'', Task ''f4'' (Some True) None)] ''T'',
              StateMachine [(''T'', Task ''f5'' (Some True) None)] ''T''] start = Inr (bs, s1) \<and>
         Name (objs s' (Entry_unum_function r)) =
           ''UnumParallel'' @ str_nat (unum_parallel_counter s1) \<and>
         sink \<in> set (unum_IR r) \<and>
         Name (objs s' sink) = ''UnumParallelSink'' @ str_nat (unum_parallel_counter s1))"
    apply (rule exI[of _ q], rule exI[of _ t'], rule conjI[OF h5])
    apply (rule exI[of _ bs], rule exI[of _ u], rule exI[of _ sink2])
    apply (rule c2)
    done
  show ?thesis
    using h1 h2 e1 h4 e2 by (intro conjI)
qed

text \<open>
  A Map whose iterator is a Map over one Task: the outer Map is \<^verbatim>\<open>UnumMap1\<close>, the inner one
  \<^verbatim>\<open>UnumMap0\<close>.
\<close>

theorem barrier_named_after_body_counterexample:
  "main None (Suc (Suc (Suc 0)))
     (StateMachine
        [(''Outer'', Map
           (StateMachine
              [(''Inner'', Map (StateMachine [(''T'', Task ''f3'' (Some True) None)] ''T'')
                 None)] ''Inner'') None)] ''Outer'') False =
   Inr [\<lparr>Name = ''UnumMap1'', Next = Some (NextName ''UnumMap0''),
          NextInput = Some MapInput, Checkpoint = Some False\<rparr>,
        \<lparr>Name = ''UnumMap0'', Next = Some (NextName ''f3''),
          NextInput = Some MapInput, Checkpoint = Some False\<rparr>,
        \<lparr>Name = ''f3'', Next = Some (NextName ''UnumMapSink0''),
          NextInput = Some (FanIn [''f3-unumIndex-*'']), Checkpoint = Some True\<rparr>,
        \<lparr>Name = ''UnumMapSink0'', Next = Some (NextName ''UnumMapSink1''),
          NextInput = Some (FanIn [''UnumMapSink0-unumIndex-*'']), Checkpoint = Some True\<rparr>,
        \<lparr>Name = ''UnumMapSink1'', Next = None, NextInput = None,
          Checkpoint = Some False\<rparr>]"
  by (simp add: main_def compile_def start_def lowering_defs emitted_def set_Checkpoint_def
      str_nat_0 str_nat_1)

section \<open>Names of the emitted configurations\<close>

text \<open>\<open>str_nat\<close> is injective and yields digits only, so barrier names do not collide.\<close>

lemma str_nat_digits: "set (str_nat n) \<subseteq> set ''0123456789''"
proof (induction n rule: str_nat.induct)
  case (1 n)
  show ?case
  proof (cases "n < 10")
    case True
    then have "''0123456789'' ! n \<in> set ''0123456789''"
      by (intro nth_mem) simp
    with True show ?thesis by (subst str_nat.simps) simp
  next
    case False
    have "n mod 10 < 10" by simp
    then have "''0123456789'' ! (n mod 10) \<in> set ''0123456789''"
      by (intro nth_mem) simp
    with False 1 show ?thesis by (subst str_nat.simps) simp
  qed
qed

lemma str_nat_nonempty: "str_nat n \<noteq> []"
  by (subst str_nat.simps) simp

lemma digit_inj: "a < 10 \<Longrightarrow> b < 10 \<Longrightarrow> ''0123456789'' ! a = ''0123456789'' ! b \<Longrightarrow> a = b"
proof -
  assume a: "a < 10" and b: "b < 10" and e: "''0123456789'' ! a = ''0123456789'' ! b"
  have d: "distinct ''0123456789''" by simp
  from a b have "a < length ''0123456789''" "b < length ''0123456789''" by simp_all
  with d e show "a = b" by (simp only: nth_eq_iff_index_eq)
qed

lemma str_nat_inj: "str_nat m = str_nat n \<Longrightarrow> m = n"
proof (induction m arbitrary: n rule: str_nat.induct)
  case (1 m)
  show ?case
  proof (cases "m < 10")
    case True
    note m = this
    show ?thesis
    proof (cases "n < 10")
      case True
      with m "1.prems" have "''0123456789'' ! m = ''0123456789'' ! n"
        by (simp add: str_nat.simps[of m] str_nat.simps[of n])
      with m True show ?thesis by (rule digit_inj)
    next
      case False
      with m "1.prems" have "[''0123456789'' ! m] = str_nat (n div 10) @ [''0123456789'' ! (n mod 10)]"
        by (simp add: str_nat.simps[of m] str_nat.simps[of n])
      then have "str_nat (n div 10) = []" by simp
      then show ?thesis using str_nat_nonempty by blast
    qed
  next
    case False
    note m = this
    show ?thesis
    proof (cases "n < 10")
      case True
      with m "1.prems" have "str_nat (m div 10) @ [''0123456789'' ! (m mod 10)] = [''0123456789'' ! n]"
        by (simp add: str_nat.simps[of m] str_nat.simps[of n])
      then have "str_nat (m div 10) = []" by simp
      then show ?thesis using str_nat_nonempty by blast
    next
      case False
      with m "1.prems" have e: "str_nat (m div 10) @ [''0123456789'' ! (m mod 10)] =
          str_nat (n div 10) @ [''0123456789'' ! (n mod 10)]"
        by (simp add: str_nat.simps[of m] str_nat.simps[of n])
      then have e1: "str_nat (m div 10) = str_nat (n div 10)"
        and e2: "''0123456789'' ! (m mod 10) = ''0123456789'' ! (n mod 10)"
        by simp_all
      from "1.IH"[OF m e1] have d: "m div 10 = n div 10" .
      have "m mod 10 = n mod 10" by (rule digit_inj[OF _ _ e2]) simp_all
      with d show ?thesis by (metis div_mult_mod_eq)
    qed
  qed
qed

lemma no_S: "CHR ''S'' \<notin> set (str_nat n)"
  using str_nat_digits[of n] by auto

lemma distinct_barrier_names: "distinct (barrier_names m m' p p')"
proof -
  have s: "str_nat a \<noteq> CHR ''S'' # xs" for a xs
    using no_S[of a] by (metis list.set_intros(1))
  show ?thesis
    unfolding barrier_names_def
    using s by (auto simp: distinct_map intro!: inj_onI dest: str_nat_inj)
qed

lemma barrier_names_same: "barrier_names m m p p = []"
  by (simp add: barrier_names_def)

lemma barrier_names_map:
  "mset (barrier_names m (Suc m) p p) =
     {#''UnumMap'' @ str_nat m, ''UnumMapSink'' @ str_nat m#}"
  by (simp add: barrier_names_def)

lemma barrier_names_parallel:
  "mset (barrier_names m m p (Suc p)) =
     {#''UnumParallel'' @ str_nat p, ''UnumParallelSink'' @ str_nat p#}"
  by (simp add: barrier_names_def)

lemma mset_upt_split:
  "a \<le> b \<Longrightarrow> b \<le> c \<Longrightarrow> mset (map f [a..<c]) = mset (map f [a..<b]) + mset (map f [b..<c])"
proof -
  assume "a \<le> b" "b \<le> c"
  then have "[a..<c] = [a..<b] @ [b..<c]"
    by (metis le_Suc_ex upt_add_eq_append)
  then show ?thesis by (metis map_append mset_append)
qed

lemma barrier_names_split:
  assumes "m \<le> m1" "m1 \<le> m2" "p \<le> p1" "p1 \<le> p2"
  shows "mset (barrier_names m m2 p p2) =
     mset (barrier_names m m1 p p1) + mset (barrier_names m1 m2 p1 p2)"
  unfolding barrier_names_def
  by (simp only: mset_append mset_upt_split[OF assms(1,2)] mset_upt_split[OF assms(3,4)]
      ac_simps)

lemma distinct_count: "distinct xs \<longleftrightarrow> (\<forall>x. count (mset xs) x \<le> 1)"
proof
  assume "distinct xs"
  then show "\<forall>x. count (mset xs) x \<le> 1" by (simp add: distinct_count_atmost_1)
next
  assume a: "\<forall>x. count (mset xs) x \<le> 1"
  show "distinct xs"
    unfolding distinct_count_atmost_1
  proof (intro allI)
    fix x
    show "count (mset xs) x = (if x \<in> set xs then 1 else 0)"
    proof (cases "x \<in> set xs")
      case True
      then have p: "0 < count (mset xs) x" by simp
      have q: "count (mset xs) x \<le> 1" using a by blast
      from p q have "count (mset xs) x = 1" by linarith
      with True show ?thesis by simp
    next
      case False
      then show ?thesis by (simp add: count_eq_zero_iff)
    qed
  qed
qed

lemma distinct_split:
  assumes "mset xs = mset B + T" "distinct B"
  shows "distinct xs \<longleftrightarrow> (\<forall>x. count T x \<le> 1) \<and> set B \<inter> set_mset T = {}"
proof -
  have c: "count (mset xs) x = count (mset B) x + count T x" for x
    by (simp add: assms(1))
  have b: "count (mset B) x = (if x \<in> set B then 1 else 0)" for x
    using assms(2) by (simp add: distinct_count_atmost_1)
  have t: "x \<in> set_mset T \<longleftrightarrow> 0 < count T x" for x
    by simp
  show ?thesis
  proof
    assume "distinct xs"
    then have a: "\<And>x. (if x \<in> set B then 1 else 0) + count T x \<le> 1"
      by (simp add: distinct_count c b)
    have 1: "\<forall>x. count T x \<le> 1"
    proof
      fix x show "count T x \<le> 1" using a[of x] by (simp split: if_splits)
    qed
    have 2: "set B \<inter> set_mset T = {}"
    proof (rule ccontr)
      assume "set B \<inter> set_mset T \<noteq> {}"
      then obtain x where "x \<in> set B" "0 < count T x" using t by blast
      with a[of x] show False by simp
    qed
    from 1 2 show "(\<forall>x. count T x \<le> 1) \<and> set B \<inter> set_mset T = {}" ..
  next
    assume h: "(\<forall>x. count T x \<le> 1) \<and> set B \<inter> set_mset T = {}"
    have "count (mset xs) x \<le> 1" for x
    proof (cases "x \<in> set B")
      case True
      with h have "x \<notin> set_mset T" by blast
      then have "count T x = 0" by (simp add: count_eq_zero_iff)
      with True show ?thesis by (simp add: c b)
    next
      case False
      with h show ?thesis by (simp add: c b)
    qed
    then show "distinct xs" by (simp add: distinct_count)
  qed
qed

lemma frame_kept: "frame s s' \<Longrightarrow> kept s s'"
  by (simp add: frame_def kept_def)

lemma kept_refl: "kept s s"
  by (simp add: kept_def)

lemma kept_trans: "kept s t \<Longrightarrow> kept t u \<Longrightarrow> kept s u"
  by (auto simp: kept_def)

lemma names_of_kept:
  assumes "kept s1 s2" "\<forall>a\<in>set ir. a < next_obj s1"
  shows "names_of s2 ir = names_of s1 ir"
proof -
  have "map (\<lambda>a. Name (objs s2 a)) ir = map (\<lambda>a. Name (objs s1 a)) ir"
    by (rule map_cong) (use assms in \<open>auto simp: kept_def\<close>)
  then show ?thesis by (simp only: names_of_def)
qed

lemma names_of_append: "names_of s (xs @ ys) = names_of s xs + names_of s ys"
  by (simp add: names_of_def)

lemma names_of_perm: "mset xs = mset ys \<Longrightarrow> names_of s xs = names_of s ys"
  unfolding names_of_def by (metis mset_map)

lemma named_append:
  assumes 1: "named af sm s ir1 s1" and 2: "named af sm s1 ir2 s2"
  shows "named af sm s (ir1 @ ir2) s2"
proof -
  from 1 obtain T1 where k1: "kept s s1" and r1: "\<forall>a\<in>set ir1. a < next_obj s1"
    and n1: "names_of s1 ir1 =
            mset (barrier_names (unum_map_counter s) (unum_map_counter s1)
                   (unum_parallel_counter s) (unum_parallel_counter s1)) + T1"
    and t1: "set_mset T1 \<subseteq> step_names af sm"
    unfolding named_def by (elim exE conjE) (rule that)
  from 2 obtain T2 where k2: "kept s1 s2" and r2: "\<forall>a\<in>set ir2. a < next_obj s2"
    and n2: "names_of s2 ir2 =
            mset (barrier_names (unum_map_counter s1) (unum_map_counter s2)
                   (unum_parallel_counter s1) (unum_parallel_counter s2)) + T2"
    and t2: "set_mset T2 \<subseteq> step_names af sm"
    unfolding named_def by (elim exE conjE) (rule that)
  have k: "kept s s2" by (rule kept_trans[OF k1 k2])
  have r: "\<forall>a\<in>set (ir1 @ ir2). a < next_obj s2"
    using r1 r2 k2 by (auto simp: kept_def)
  have sp: "mset (barrier_names (unum_map_counter s) (unum_map_counter s2)
                   (unum_parallel_counter s) (unum_parallel_counter s2)) =
     mset (barrier_names (unum_map_counter s) (unum_map_counter s1)
                   (unum_parallel_counter s) (unum_parallel_counter s1)) +
     mset (barrier_names (unum_map_counter s1) (unum_map_counter s2)
                   (unum_parallel_counter s1) (unum_parallel_counter s2))"
    by (rule barrier_names_split) (use k1 k2 in \<open>simp_all add: kept_def\<close>)
  have n: "names_of s2 (ir1 @ ir2) =
     mset (barrier_names (unum_map_counter s) (unum_map_counter s2)
                   (unum_parallel_counter s) (unum_parallel_counter s2)) + (T1 + T2)"
    unfolding names_of_append names_of_kept[OF k2 r1] n1 n2 sp by (simp only: ac_simps)
  have t: "set_mset (T1 + T2) \<subseteq> step_names af sm" using t1 t2 by simp
  show ?thesis
    unfolding named_def
    by (intro conjI k r exI[of _ "T1 + T2"] n t)
qed

lemma named_perm:
  assumes "mset ir = mset ir'" "named af sm s ir s'"
  shows "named af sm s ir' s'"
proof -
  have "set ir = set ir'" using assms(1) by (rule mset_eq_setD)
  with assms(2) show ?thesis
    unfolding named_def names_of_perm[OF assms(1)] by simp
qed

lemma named_later:
  assumes 1: "named af sm s ir s1" and k2: "kept s1 s2"
    and m: "unum_map_counter s2 = unum_map_counter s1"
    and p: "unum_parallel_counter s2 = unum_parallel_counter s1"
  shows "named af sm s ir s2"
proof -
  from 1 obtain T1 where k1: "kept s s1" and r1: "\<forall>a\<in>set ir. a < next_obj s1"
    and n1: "names_of s1 ir =
            mset (barrier_names (unum_map_counter s) (unum_map_counter s1)
                   (unum_parallel_counter s) (unum_parallel_counter s1)) + T1"
    and t1: "set_mset T1 \<subseteq> step_names af sm"
    unfolding named_def by (elim exE conjE) (rule that)
  have k: "kept s s2" by (rule kept_trans[OF k1 k2])
  have r: "\<forall>a\<in>set ir. a < next_obj s2" using r1 k2 by (auto simp: kept_def)
  have n: "names_of s2 ir =
            mset (barrier_names (unum_map_counter s) (unum_map_counter s2)
                   (unum_parallel_counter s) (unum_parallel_counter s2)) + T1"
    unfolding names_of_kept[OF k2 r1] n1 m p ..
  show ?thesis
    unfolding named_def
    by (intro conjI k r exI[of _ T1] n t1)
qed

lemma named_mono:
  assumes "step_names af sm1 \<subseteq> step_names af sm2" "named af sm1 s ir s'"
  shows "named af sm2 s ir s'"
  using assms unfolding named_def by blast

lemma named_Nil: "named af sm s [] s"
  by (simp add: named_def kept_refl names_of_def barrier_names_same)

lemma named_task_end:
  assumes "f \<in> step_names af sm" "task_end n f s = (r, s')"
  shows "named af sm s (unum_IR r) s'"
  using assms
  by (auto simp: task_end_def new_obj_def named_def kept_def names_of_def barrier_names_same
      name_only_def)

lemma named_task_next:
  assumes 1: "named af sm s (unum_IR ns) s1" and f: "f \<in> step_names af sm"
    and 2: "task_next n f ns s1 = (r, s2)"
  shows "named af sm s (unum_IR r) s2"
proof -
  have a: "named af sm s1 [next_obj s1] s2"
    using 2 f
    by (auto simp: task_next_def new_obj_def named_def kept_def names_of_def
        barrier_names_same)
  have r: "unum_IR r = [next_obj s1] @ unum_IR ns"
    using 2 by (auto simp: task_next_def new_obj_def)
  show ?thesis
    unfolding r by (rule named_perm[OF _ named_append[OF 1 a]]) simp
qed

lemma named_map_barrier:
  assumes 1: "named af sm s (unum_IR it) s1" and ex: "Exit_unum_function it < next_obj s1"
    and 2: "map_barrier it s1 = (e, k, ir, s6)"
  shows "named af sm s ir s6"
proof -
  note p = map_barrier_props[OF 2 ex]
  have kp: "kept s1 s6"
    unfolding kept_def
  proof (intro conjI allI impI)
    fix a assume a: "a < next_obj s1"
    show "Name (objs s6 a) = Name (objs s1 a)"
      using p(7)[OF a] p(10) by (cases "a = Exit_unum_function it") simp_all
  qed (simp_all add: p(4,5,6))
  have n: "names_of s6 [e, k] =
      mset (barrier_names (unum_map_counter s1) (unum_map_counter s6)
             (unum_parallel_counter s1) (unum_parallel_counter s6)) + {#}"
    by (simp add: names_of_def p(5,6,8,9) barrier_names_map name_only_def)
  have a: "named af sm s1 [e, k] s6"
    unfolding named_def
    by (intro conjI kp exI[of _ "{#}"] n) (simp_all add: p(1,2,4))
  show ?thesis
    unfolding p(3) by (rule named_perm[OF _ named_append[OF 1 a]]) simp
qed

lemma named_parallel_barrier:
  assumes 1: "named af sm s (concat (map unum_IR bs)) s1"
    and ex: "\<And>b. b \<in> set bs \<Longrightarrow> Exit_unum_function b < next_obj s1"
    and 2: "parallel_barrier bs s1 = (e, k, ir, s5)"
  shows "named af sm s ir s5"
proof -
  note p = parallel_barrier_props[OF 2 ex, simplified]
  have kp: "kept s1 s5"
    unfolding kept_def
  proof (intro conjI allI impI)
    fix a assume a: "a < next_obj s1"
    show "Name (objs s5 a) = Name (objs s1 a)"
    proof (cases "a \<in> Exit_unum_function ` set bs")
      case True
      then obtain b where "b \<in> set bs" "a = Exit_unum_function b" by blast
      then show ?thesis using p(10)[of b] by (simp add: fan_in_upd_def)
    next
      case False
      then show ?thesis using p(7)[of a] a by simp
    qed
  qed (simp_all add: p(4,5,6))
  have n: "names_of s5 [e, k] =
      mset (barrier_names (unum_map_counter s1) (unum_map_counter s5)
             (unum_parallel_counter s1) (unum_parallel_counter s5)) + {#}"
    by (simp add: names_of_def p(5,6,8,9) barrier_names_parallel name_only_def)
  have a: "named af sm s1 [e, k] s5"
    unfolding named_def
    by (intro conjI kp exI[of _ "{#}"] n) (simp_all add: p(1,2,4))
  show ?thesis
    unfolding p(3) by (rule named_perm[OF _ named_append[OF 1 a]]) simp
qed

lemma named_barrier_next:
  assumes 1: "named af sm s ir s6" and 2: "named af sm s6 (unum_IR ns) s7"
    and 3: "barrier_next n e k ir ns s7 = (r, s9)"
  shows "named af sm s (unum_IR r) s9"
proof -
  have r: "unum_IR r = ir @ unum_IR ns"
    and m: "unum_map_counter s9 = unum_map_counter s7"
    and p: "unum_parallel_counter s9 = unum_parallel_counter s7"
    and k: "kept s7 s9"
    using 3 by (auto simp: barrier_next_def Let_def set_Next_def set_NextInput_def kept_def)
  show ?thesis
    unfolding r by (rule named_later[OF named_append[OF 1 2] k m p])
qed

lemma resources_lookup:
  assumes "map_of (States sm) name = Some st"
  shows "resources_of_state st \<subseteq> resources_of_machine sm"
proof (cases sm)
  case (StateMachine sts start_at)
  with assms have "(name, st) \<in> set sts" by (auto dest: map_of_SomeD)
  then show ?thesis unfolding StateMachine by force
qed

lemma step_names_mono:
  "resources_of_machine sm1 \<subseteq> resources_of_machine sm2 \<Longrightarrow>
   step_names af sm1 \<subseteq> step_names af sm2"
  unfolding step_names_def by blast

lemma lowering_named:
  "\<forall>name sm s r s'. translate_state_machine' af d name sm s = Inr (r, s') \<longrightarrow>
     named af sm s (unum_IR r) s'"
proof (induction d)
  case 0
  show ?case by simp
next
  case (Suc d)
  have IH: "\<And>name sm s r s'. translate_state_machine' af d name sm s = Inr (r, s') \<Longrightarrow>
      named af sm s (unum_IR r) s'"
    using Suc.IH by blast
  have SM: "\<And>sm s r s'. translate_state_machine af d sm s = Inr (r, s') \<Longrightarrow>
      named af sm s (unum_IR r) s'"
    using IH by (auto split: option.splits)
  have BR: "translate_branches af d brs s = Inr (rs, s') \<Longrightarrow>
      (\<forall>b\<in>set brs. step_names af b \<subseteq> step_names af sm) \<Longrightarrow>
      named af sm s (concat (map unum_IR rs)) s'" for brs s rs s' sm
  proof (induction brs arbitrary: s rs s')
    case Nil
    then show ?case by (simp add: named_Nil)
  next
    case (Cons b brs)
    from Cons.prems(1) obtain r s1 rs' where
      1: "translate_state_machine af d b s = Inr (r, s1)"
      and 2: "translate_branches af d brs s1 = Inr (rs', s')" and 3: "rs = r # rs'"
      by (auto simp del: translate_state_machine.simps split: sum.splits)
    have a: "named af sm s (unum_IR r) s1"
      by (rule named_mono[OF _ SM[OF 1]]) (use Cons.prems(2) in simp)
    have b: "named af sm s1 (concat (map unum_IR rs')) s'"
      by (rule Cons.IH[OF 2]) (use Cons.prems(2) in simp)
    show ?case unfolding 3 using named_append[OF a b] by simp
  qed
  show ?case
  proof (intro allI impI)
    fix name sm s r s'
    assume tr: "translate_state_machine' af (Suc d) name sm s = Inr (r, s')"
    then obtain st where st: "map_of (States sm) name = Some st"
      by (auto split: option.splits)
    note rl = resources_lookup[OF st]
    show "named af sm s (unum_IR r) s'"
    proof (cases st)
      case (Task res e nxt)
      from tr st Task obtain f where f: "get_state_unum_function_name af res = Inr f"
        by (auto split: sum.splits)
      have fs: "f \<in> step_names af sm"
        using f rl Task by (auto simp: step_names_def)
      show ?thesis
      proof (cases "e = Some True")
        case True
        with tr st Task f have "task_end name f s = (r, s')" by simp
        then show ?thesis by (rule named_task_end[OF fs])
      next
        case False
        with tr st Task f obtain nn ns s1 where
          1: "translate_state_machine' af d nn sm s = Inr (ns, s1)"
          and 2: "task_next name f ns s1 = (r, s')"
          by (auto split: option.splits sum.splits)
        show ?thesis by (rule named_task_next[OF IH[OF 1] fs 2])
      qed
    next
      case (Map iter nxt)
      from st[unfolded Map] tr obtain it s1 e k ir s6 where
        1: "translate_state_machine af d iter s = Inr (it, s1)"
        and 2: "map_barrier it s1 = (e, k, ir, s6)"
        and 3: "(case nxt of
            Some nn \<Rightarrow>
              (case translate_state_machine' af d nn sm s6 of
                 Inl err \<Rightarrow> Inl err
               | Inr (ns, s7) \<Rightarrow> Inr (barrier_next name e k ir ns s7))
          | None \<Rightarrow> Inr (barrier_end name e k ir, s6)) = Inr (r, s')"
        by (rule lower_Map)
      have g: "good s it s1" by (rule machine_good[OF 1])
      have ex: "Exit_unum_function it < next_obj s1"
        using good_range[OF g good_exit[OF g]] by simp
      have a: "named af sm s (unum_IR it) s1"
        by (rule named_mono[OF step_names_mono SM[OF 1]]) (use rl Map in simp)
      have b: "named af sm s ir s6" by (rule named_map_barrier[OF a ex 2])
      show ?thesis
      proof (cases nxt)
        case None
        with 3 have "r = barrier_end name e k ir" "s' = s6" by simp_all
        with b show ?thesis by (simp add: barrier_end_def)
      next
        case (Some nn)
        with 3 obtain ns s7 where
          4: "translate_state_machine' af d nn sm s6 = Inr (ns, s7)"
          and 5: "barrier_next name e k ir ns s7 = (r, s')"
          by (auto split: sum.splits)
        show ?thesis by (rule named_barrier_next[OF b IH[OF 4] 5])
      qed
    next
      case (Parallel brs nxt)
      from st[unfolded Parallel] tr obtain bs s1 e k ir s5 where
        1: "translate_branches af d brs s = Inr (bs, s1)"
        and 2: "parallel_barrier bs s1 = (e, k, ir, s5)"
        and 3: "(case nxt of
            Some nn \<Rightarrow>
              (case translate_state_machine' af d nn sm s5 of
                 Inl err \<Rightarrow> Inl err
               | Inr (ns, s7) \<Rightarrow> Inr (barrier_next name e k ir ns s7))
          | None \<Rightarrow> Inr (barrier_end name e k ir, s5)) = Inr (r, s')"
        by (rule lower_Parallel)
      have gs: "goods s bs s1" by (rule branches_good[OF 1])
      have ex: "\<And>b. b \<in> set bs \<Longrightarrow> Exit_unum_function b < next_obj s1"
        using goods_exit_range[OF gs] by simp
      have sub: "\<forall>b\<in>set brs. step_names af b \<subseteq> step_names af sm"
      proof
        fix b assume "b \<in> set brs"
        then have "resources_of_machine b \<subseteq> resources_of_machine sm"
          using rl Parallel by auto
        then show "step_names af b \<subseteq> step_names af sm" by (rule step_names_mono)
      qed
      have a: "named af sm s (concat (map unum_IR bs)) s1" by (rule BR[OF 1 sub])
      have b: "named af sm s ir s5" by (rule named_parallel_barrier[OF a ex 2])
      show ?thesis
      proof (cases nxt)
        case None
        with 3 have "r = barrier_end name e k ir" "s' = s5" by simp_all
        with b show ?thesis by (simp add: barrier_end_def)
      next
        case (Some nn)
        with 3 obtain ns s7 where
          4: "translate_state_machine' af d nn sm s5 = Inr (ns, s7)"
          and 5: "barrier_next name e k ir ns s7 = (r, s')"
          by (auto split: sum.splits)
        show ?thesis by (rule named_barrier_next[OF b IH[OF 4] 5])
      qed
    next
      case Other
      with tr st show ?thesis by simp
    qed
  qed
qed

lemma checkpoint_pass_Name: "Name (objs (checkpoint_pass dflt ir s) a) = Name (objs s a)"
  by (induction ir arbitrary: s) (auto simp: set_Checkpoint_def)

lemma checkpoint_pass_counters:
  "unum_map_counter (checkpoint_pass dflt ir s) = unum_map_counter s \<and>
   unum_parallel_counter (checkpoint_pass dflt ir s) = unum_parallel_counter s"
  by (induction ir arbitrary: s) (auto simp: set_Checkpoint_def)

text \<open>
  C4, as the code has it. The names that a successful compilation emits are the barrier
  names \<^verbatim>\<open>UnumMap\<close>, \<^verbatim>\<open>UnumMapSink\<close>, \<^verbatim>\<open>UnumParallel\<close> and \<^verbatim>\<open>UnumParallelSink\<close> of the counter
  values that the run used, each once, together with the names \<open>T\<close> of the Tasks it
  lowered, which are resolved resources of the workflow. The barrier names are pairwise
  distinct, across any nesting. Nothing makes the Task names distinct: all emitted names
  are pairwise distinct exactly when no Task name occurs twice and none is a barrier name
  of the run.
\<close>

theorem barrier_names_unique:
  assumes "compile af d sm dflt s = Inr (cs, s2)"
  shows "\<exists>T.
     mset (map Name cs) =
       mset (barrier_names (unum_map_counter s) (unum_map_counter s2)
              (unum_parallel_counter s) (unum_parallel_counter s2)) + T \<and>
     set_mset T \<subseteq> step_names af sm \<and>
     distinct (barrier_names (unum_map_counter s) (unum_map_counter s2)
                (unum_parallel_counter s) (unum_parallel_counter s2)) \<and>
     (distinct (map Name cs) \<longleftrightarrow>
        (\<forall>x. count T x \<le> 1) \<and>
        set (barrier_names (unum_map_counter s) (unum_map_counter s2)
              (unum_parallel_counter s) (unum_parallel_counter s2)) \<inter> set_mset T = {})"
proof -
  obtain r s1 where tr: "translate_state_machine af d sm s = Inr (r, s1)"
    using assms by (cases "translate_state_machine af d sm s")
      (auto simp: compile_def simp del: translate_state_machine.simps)
  have cs: "cs = map (objs s2) (unum_IR r)"
    and s2: "s2 = checkpoint_pass dflt (unum_IR r) s1"
    using assms tr
    by (auto simp: compile_def emitted_def Let_def simp del: translate_state_machine.simps)
  have n: "map Name cs = map (\<lambda>a. Name (objs s1 a)) (unum_IR r)"
    unfolding cs s2 by (simp add: checkpoint_pass_Name)
  have c: "unum_map_counter s2 = unum_map_counter s1"
    "unum_parallel_counter s2 = unum_parallel_counter s1"
    unfolding s2 by (simp_all add: checkpoint_pass_counters)
  from tr have "translate_state_machine' af d (StartAt sm) sm s = Inr (r, s1)"
    by (simp split: option.splits)
  with lowering_named have "named af sm s (unum_IR r) s1" by blast
  then obtain T where
    1: "names_of s1 (unum_IR r) =
            mset (barrier_names (unum_map_counter s) (unum_map_counter s1)
                   (unum_parallel_counter s) (unum_parallel_counter s1)) + T"
    and 2: "set_mset T \<subseteq> step_names af sm"
    unfolding named_def by (elim exE conjE) (rule that)
  have 3: "mset (map Name cs) =
       mset (barrier_names (unum_map_counter s) (unum_map_counter s2)
              (unum_parallel_counter s) (unum_parallel_counter s2)) + T"
    unfolding n c using 1 by (simp only: names_of_def)
  note 4 = distinct_barrier_names[of "unum_map_counter s" "unum_map_counter s2"
      "unum_parallel_counter s" "unum_parallel_counter s2"]
  note 5 = distinct_split[OF 3 4]
  show ?thesis
    by (rule exI[of _ T]) (intro conjI 3 2 4 5)
qed

lemma scenario_2_compile:
  "\<exists>s2. compile None (Suc (Suc 0))
     (StateMachine [(''M'', Map (StateMachine [(''T'', Task ''f3'' (Some True) None)] ''T'')
        None)] ''M'') False start =
   Inr ([\<lparr>Name = ''UnumMap0'', Next = Some (NextName ''f3''), NextInput = Some MapInput,
          Checkpoint = Some False\<rparr>,
        \<lparr>Name = ''f3'', Next = Some (NextName ''UnumMapSink0''),
          NextInput = Some (FanIn [''f3-unumIndex-*'']), Checkpoint = Some True\<rparr>,
        \<lparr>Name = ''UnumMapSink0'', Next = None, NextInput = None,
          Checkpoint = Some False\<rparr>], s2)"
  by (simp add: compile_def start_def lowering_defs emitted_def set_Checkpoint_def str_nat_0)

theorem barrier_names_unique_witness:
  "\<exists>cs s2. compile None (Suc (Suc 0))
     (StateMachine [(''M'', Map (StateMachine [(''T'', Task ''f3'' (Some True) None)] ''T'')
        None)] ''M'') False start = Inr (cs, s2) \<and>
     map Name cs = [''UnumMap0'', ''f3'', ''UnumMapSink0''] \<and>
     (\<exists>T.
       mset (map Name cs) =
         mset (barrier_names (unum_map_counter start) (unum_map_counter s2)
                (unum_parallel_counter start) (unum_parallel_counter s2)) + T \<and>
       set_mset T \<subseteq> step_names None
         (StateMachine [(''M'', Map (StateMachine [(''T'', Task ''f3'' (Some True) None)] ''T'')
            None)] ''M'') \<and>
       distinct (barrier_names (unum_map_counter start) (unum_map_counter s2)
                  (unum_parallel_counter start) (unum_parallel_counter s2)) \<and>
       (distinct (map Name cs) \<longleftrightarrow>
          (\<forall>x. count T x \<le> 1) \<and>
          set (barrier_names (unum_map_counter start) (unum_map_counter s2)
                (unum_parallel_counter start) (unum_parallel_counter s2)) \<inter> set_mset T = {}))"
proof -
  from scenario_2_compile obtain s2 where
    h: "compile None (Suc (Suc 0))
     (StateMachine [(''M'', Map (StateMachine [(''T'', Task ''f3'' (Some True) None)] ''T'')
        None)] ''M'') False start =
   Inr ([\<lparr>Name = ''UnumMap0'', Next = Some (NextName ''f3''), NextInput = Some MapInput,
          Checkpoint = Some False\<rparr>,
        \<lparr>Name = ''f3'', Next = Some (NextName ''UnumMapSink0''),
          NextInput = Some (FanIn [''f3-unumIndex-*'']), Checkpoint = Some True\<rparr>,
        \<lparr>Name = ''UnumMapSink0'', Next = None, NextInput = None,
          Checkpoint = Some False\<rparr>], s2)"
    by (elim exE) (rule that)
  have n: "map Name [\<lparr>Name = ''UnumMap0'', Next = Some (NextName ''f3''), NextInput = Some MapInput,
          Checkpoint = Some False\<rparr>,
        \<lparr>Name = ''f3'', Next = Some (NextName ''UnumMapSink0''),
          NextInput = Some (FanIn [''f3-unumIndex-*'']), Checkpoint = Some True\<rparr>,
        \<lparr>Name = ''UnumMapSink0'', Next = None, NextInput = None,
          Checkpoint = Some False\<rparr>] = [''UnumMap0'', ''f3'', ''UnumMapSink0'']"
    by simp
  show ?thesis
    apply (rule exI[of _ "[\<lparr>Name = ''UnumMap0'', Next = Some (NextName ''f3''), NextInput = Some MapInput,
          Checkpoint = Some False\<rparr>,
        \<lparr>Name = ''f3'', Next = Some (NextName ''UnumMapSink0''),
          NextInput = Some (FanIn [''f3-unumIndex-*'']), Checkpoint = Some True\<rparr>,
        \<lparr>Name = ''UnumMapSink0'', Next = None, NextInput = None,
          Checkpoint = Some False\<rparr>]"])
    apply (rule exI[of _ s2])
    apply (intro conjI)
      apply (rule h)
     apply (rule n)
    apply (rule barrier_names_unique[OF h])
    done
qed

text \<open>
  Two Tasks in a chain with the same resource \<^verbatim>\<open>f1\<close>: two configurations named \<^verbatim>\<open>f1\<close>.
\<close>

theorem barrier_names_unique_counterexample:
  "main None (Suc (Suc 0))
     (StateMachine
        [(''A'', Task ''f1'' None (Some ''B'')), (''B'', Task ''f1'' (Some True) None)] ''A'')
     False =
   Inr [\<lparr>Name = ''f1'', Next = Some (NextName ''f1''), NextInput = Some Scalar,
          Checkpoint = Some False\<rparr>,
        \<lparr>Name = ''f1'', Next = None, NextInput = None, Checkpoint = Some False\<rparr>] \<and>
   \<not> distinct (map Name
        [\<lparr>Name = ''f1'', Next = Some (NextName ''f1''), NextInput = Some Scalar,
          Checkpoint = Some False\<rparr>,
        \<lparr>Name = ''f1'', Next = None, NextInput = None, Checkpoint = Some False\<rparr>])"
  by (simp add: main_def compile_def start_def lowering_defs emitted_def set_Checkpoint_def)

end
